theory Spec2Isabelle
  imports Complex_Main "HOL-Library.Multiset" "HOL-Library.Log_Nat"
begin

section \<open>Data model\<close>

text \<open>
  The notebook works on a pandas DataFrame with the columns Drug, Protein, SMILES,
  Sequence and Affinity (\<open>load_kiba_dataset\<close>); \<open>encode_sequences\<close> adds the columns
  Encoded_Sequence and Encoded_SMILES. A frame is the list of its rows in order, each
  with its index label (\<open>read_csv\<close> gives the labels 0, 1, 2, ...). Exceptions are
  values of a sum type. Floating-point affinities are read as the real numbers they
  denote.
\<close>

datatype error = ValueError | TypeError | ZeroDivisionError | RuntimeError

record raw_row =
  Drug :: string
  Protein :: string
  SMILES :: string
  Sequence :: string
  Affinity :: real

record row = raw_row +
  Encoded_Sequence :: "nat list"
  Encoded_SMILES :: "nat list"

type_synonym 'a frame = "(nat \<times> 'a) list"

section \<open>encode_sequences\<close>

text \<open>
  \<^verbatim>\<open>{x: i+1 for i, x in enumerate(xs)}\<close>: the dictionary is filled from left to right, a
  later entry for the same key replacing an earlier one.
\<close>

definition dict_put :: "nat \<times> char \<Rightarrow> (char \<rightharpoonup> nat) \<Rightarrow> (char \<rightharpoonup> nat)" where
  "dict_put = (\<lambda>(i, x) m. m(x \<mapsto> i + 1))"

definition enumerate_dict :: "char list \<Rightarrow> (char \<rightharpoonup> nat)" where
  "enumerate_dict xs = fold dict_put (enumerate 0 xs) Map.empty"

text \<open>\<^verbatim>\<open>d.get(k, 0)\<close>\<close>

definition get0 :: "(char \<rightharpoonup> nat) \<Rightarrow> char \<Rightarrow> nat" where
  "get0 d k = (case d k of None \<Rightarrow> 0 | Some v \<Rightarrow> v)"

text \<open>\<^verbatim>\<open>xs * n\<close> on a Python list: \<open>n\<close> copies of \<open>xs\<close>, none when \<open>n\<close> is negative.\<close>

definition list_times :: "'a list \<Rightarrow> int \<Rightarrow> 'a list" where
  "list_times xs n = concat (replicate (nat n) xs)"

text \<open>
  The body of the two lambdas of \<open>encode_sequences\<close>:
  \<^verbatim>\<open>[d.get(c, 0) for c in s] + [0] * (max_len - len(s))\<close>.
\<close>

definition encode_string :: "(char \<rightharpoonup> nat) \<Rightarrow> nat \<Rightarrow> string \<Rightarrow> nat list" where
  "encode_string d max_len s =
     map (get0 d) s @ list_times [0] (int max_len - int (length s))"

definition amino_acids :: "char list" where
  "amino_acids = ''ACDEFGHIKLMNPQRSTVWY''"

definition aa_to_num :: "char \<rightharpoonup> nat" where
  "aa_to_num = enumerate_dict amino_acids"

text \<open>\<^verbatim>\<open>max(series)\<close> raises ValueError on an empty series.\<close>

definition py_max :: "nat list \<Rightarrow> error + nat" where
  "py_max xs = (if xs = [] then Inl ValueError else Inr (Max (set xs)))"

text \<open>
  \<open>encode_sequences\<close>. The parameter \<open>set_iter\<close> is the order in which Python iterates
  over \<^verbatim>\<open>set(s)\<close> for a string \<open>s\<close>: the language fixes no order, only that every
  distinct character comes once.
\<close>

definition encode_sequences ::
  "(string \<Rightarrow> char list) \<Rightarrow> raw_row frame \<Rightarrow> error + row frame" where
  "encode_sequences set_iter df =
     (case py_max (map (\<lambda>(i, r). length (Sequence r)) df) of
        Inl e \<Rightarrow> Inl e
      | Inr max_seq_len \<Rightarrow>
     (case py_max (map (\<lambda>(i, r). length (SMILES r)) df) of
        Inl e \<Rightarrow> Inl e
      | Inr max_smiles_len \<Rightarrow>
          let char_set = set_iter (concat (map (\<lambda>(i, r). SMILES r) df));
              char_to_num = enumerate_dict char_set
          in Inr (map (\<lambda>(i, r).
                (i, \<lparr>Drug = Drug r, Protein = Protein r, SMILES = SMILES r,
                     Sequence = Sequence r, Affinity = Affinity r,
                     Encoded_Sequence = encode_string aa_to_num max_seq_len (Sequence r),
                     Encoded_SMILES = encode_string char_to_num max_smiles_len (SMILES r)\<rparr>))
                df)))"

text \<open>What is asked of the iteration order of a set.\<close>

definition set_order :: "(string \<Rightarrow> char list) \<Rightarrow> bool" where
  "set_order set_iter = (\<forall>s. distinct (set_iter s) \<and> set (set_iter s) = set s)"

text \<open>
  The encoding the specification asks for: a vector of length \<open>L\<close> whose first
  \<open>len(s)\<close> entries are the vocabulary lookups of the characters of \<open>s\<close> and whose
  other entries are 0.
\<close>

definition padded_encoding :: "(char \<Rightarrow> nat) \<Rightarrow> nat \<Rightarrow> string \<Rightarrow> nat list \<Rightarrow> bool" where
  "padded_encoding lookup L s v \<longleftrightarrow>
     length v = L \<and> (\<forall>j \<in> {0..<length s}. v ! j = lookup (s ! j)) \<and>
     (\<forall>j \<in> {length s..<L}. v ! j = 0)"

section \<open>Floating-point numbers\<close>

text \<open>
  The sizes of the two partitions are computed in Python floats (IEEE binary64) by the
  libraries the notebook calls. A finite float is modelled by the rational number it
  denotes, and each arithmetic operation by the exact operation followed by rounding to
  53 significant bits, to nearest, ties to even. Overflow and subnormal numbers are not
  modelled: the quantities rounded here are counts of rows and fractions of them.
\<close>

definition round_half_even :: "rat \<Rightarrow> int" where
  "round_half_even x =
     (let f = \<lfloor>x\<rfloor>; r = x - of_int f
      in if r < 1 / 2 then f else if 1 / 2 < r then f + 1
         else if even f then f else f + 1)"

text \<open>For \<open>x > 0\<close>, the exponent \<open>e\<close> with \<open>2 ^ e \<le> x < 2 ^ (e + 1)\<close>.\<close>

definition log2_floor :: "rat \<Rightarrow> int" where
  "log2_floor x =
     (if 1 \<le> x then int (floorlog 2 (nat \<lfloor>x\<rfloor>)) - 1
      else - int (floorlog 2 (nat (\<lceil>1 / x\<rceil> - 1))))"

definition round_double :: "rat \<Rightarrow> rat" where
  "round_double x =
     (if x = 0 then 0
      else let u = 2 powi (log2_floor \<bar>x\<bar> - 52)
           in of_int (round_half_even (x / u)) * u)"

text \<open>Conversion of a Python int to float, as in \<^verbatim>\<open>x * n\<close> for a float \<open>x\<close> and an int \<open>n\<close>.\<close>

definition float_of_int :: "nat \<Rightarrow> rat" where
  "float_of_int n = round_double (of_nat n)"

definition float_mul_int :: "rat \<Rightarrow> nat \<Rightarrow> rat" where
  "float_mul_int x n = round_double (x * float_of_int n)"

text \<open>\<^verbatim>\<open>a / b\<close> on Python ints: the correctly rounded quotient, ZeroDivisionError for \<open>b = 0\<close>.\<close>

definition int_truediv :: "nat \<Rightarrow> nat \<Rightarrow> error + rat" where
  "int_truediv a b =
     (if b = 0 then Inl ZeroDivisionError else Inr (round_double (of_nat a / of_nat b)))"

text \<open>\<^verbatim>\<open>round(x)\<close> on a float: the nearest integer, ties to the even one.\<close>

definition py_round :: "rat \<Rightarrow> int" where
  "py_round x = round_half_even x"

section \<open>train_test_split_proteins\<close>

text \<open>\<^verbatim>\<open>series.unique()\<close>: the distinct values in order of first appearance.\<close>

definition unique :: "'a list \<Rightarrow> 'a list" where
  "unique xs = rev (remdups (rev xs))"

text \<open>
  Both library calls draw from \<^verbatim>\<open>numpy.random.RandomState(42)\<close>, freshly seeded at each
  call: scikit-learn's ShuffleSplit takes \<^verbatim>\<open>rng.permutation(n)\<close>, and pandas' sample
  takes \<^verbatim>\<open>rng.choice(n, size, replace=False)\<close>, the first \<open>size\<close> entries of such a
  permutation. The generator is a parameter \<open>rng\<close>: \<open>rng n\<close> is the permutation of
  \<open>0, ..., n - 1\<close> it gives. Nothing is assumed of it but that it is a permutation.
\<close>

definition permutations :: "(nat \<Rightarrow> nat list) \<Rightarrow> bool" where
  "permutations rng = (\<forall>n. mset (rng n) = mset [0..<n])"

text \<open>\<^verbatim>\<open>xs[a:b]\<close> for ints \<open>a\<close> and \<open>b\<close>.\<close>

definition py_slice :: "'a list \<Rightarrow> int \<Rightarrow> int \<Rightarrow> 'a list" where
  "py_slice xs a b =
     (let n = int (length xs);
          lo = (if a < 0 then max 0 (a + n) else min a n);
          hi = (if b < 0 then max 0 (b + n) else min b n)
      in take (nat (hi - lo)) (drop (nat lo) xs))"

text \<open>
  scikit-learn's \<open>_validate_shuffle_split\<close> for a float \<open>test_size\<close> and no
  \<open>train_size\<close>: the test size must lie strictly between 0 and 1,
  \<^verbatim>\<open>n_test = ceil(test_size * n_samples)\<close>, \<^verbatim>\<open>n_train = n_samples - n_test\<close>, and an
  empty train set is refused.
\<close>

definition validate_shuffle_split :: "nat \<Rightarrow> rat \<Rightarrow> error + (int \<times> int)" where
  "validate_shuffle_split n_samples test_size =
     (if test_size \<le> 0 \<or> 1 \<le> test_size then Inl ValueError
      else let n_test = \<lceil>float_mul_int test_size n_samples\<rceil>;
               n_train = int n_samples - n_test
           in if int n_samples < n_train + n_test then Inl ValueError
              else if n_train = 0 then Inl ValueError
              else Inr (n_train, n_test))"

text \<open>
  \<^verbatim>\<open>train_test_split(arr, test_size=test_size, random_state=42)\<close>: the first \<open>n_test\<close>
  entries of the permutation index the test part, the next \<open>n_train\<close> the train part.
\<close>

definition sk_train_test_split ::
  "(nat \<Rightarrow> nat list) \<Rightarrow> 'a list \<Rightarrow> rat \<Rightarrow> error + ('a list \<times> 'a list)" where
  "sk_train_test_split rng arr test_size =
     (case validate_shuffle_split (length arr) test_size of
        Inl e \<Rightarrow> Inl e
      | Inr (n_train, n_test) \<Rightarrow>
          let permutation = rng (length arr);
              ind_test = py_slice permutation 0 n_test;
              ind_train = py_slice permutation n_test (n_test + n_train)
          in Inr (map (\<lambda>i. arr ! i) ind_train, map (\<lambda>i. arr ! i) ind_test))"

text \<open>
  \<^verbatim>\<open>frame.sample(frac=0.7, random_state=42)\<close>: \<^verbatim>\<open>round(frac * len(frame))\<close> rows, at
  the positions the generator chooses. The literal \<open>0.7\<close> is the float nearest to 7/10.
\<close>

definition sample_size :: "nat \<Rightarrow> int" where
  "sample_size obj_len = py_round (float_mul_int (round_double (7 / 10)) obj_len)"

definition df_sample :: "(nat \<Rightarrow> nat list) \<Rightarrow> 'a frame \<Rightarrow> 'a frame" where
  "df_sample rng frame =
     map (\<lambda>i. frame ! i) (py_slice (rng (length frame)) 0 (sample_size (length frame)))"

text \<open>\<^verbatim>\<open>frame.drop(labels)\<close>: the rows whose index label is not among \<open>labels\<close>.\<close>

definition df_drop :: "'a frame \<Rightarrow> nat list \<Rightarrow> 'a frame" where
  "df_drop frame labels = filter (\<lambda>(i, r). i \<notin> set labels) frame"

text \<open>
  \<open>train_test_split_proteins\<close>. The two lists that the loop of the second branch
  appends to are the first and second components of \<open>parts\<close>; \<^verbatim>\<open>pd.concat\<close> of an
  empty list raises ValueError.
\<close>

definition train_test_split_proteins ::
  "(nat \<Rightarrow> nat list) \<Rightarrow> ('a raw_row_scheme) frame \<Rightarrow> bool \<Rightarrow>
   error + (('a raw_row_scheme) frame \<times> ('a raw_row_scheme) frame)" where
  "train_test_split_proteins rng df new_proteins =
     (if new_proteins then
        (let proteins = unique (map (\<lambda>(i, r). Protein r) df)
         in case int_truediv 42 (length proteins) of
              Inl e \<Rightarrow> Inl e
            | Inr test_size \<Rightarrow>
                (case sk_train_test_split rng proteins test_size of
                   Inl e \<Rightarrow> Inl e
                 | Inr (train_proteins, test_proteins) \<Rightarrow>
                     Inr (filter (\<lambda>(i, r). Protein r \<in> set train_proteins) df,
                          filter (\<lambda>(i, r). Protein r \<in> set test_proteins) df)))
      else
        (let parts = map (\<lambda>protein.
                 let protein_data = filter (\<lambda>(i, r). Protein r = protein) df;
                     train_part = df_sample rng protein_data;
                     test_part = df_drop protein_data (map fst train_part)
                 in (train_part, test_part))
               (unique (map (\<lambda>(i, r). Protein r) df))
         in if parts = [] then Inl ValueError
            else Inr (concat (map fst parts), concat (map snd parts))))"

text \<open>The protein identifiers that occur in a frame.\<close>

definition protein_ids :: "('a raw_row_scheme) frame \<Rightarrow> string set" where
  "protein_ids frame = set (map (\<lambda>(i, r). Protein r) frame)"

text \<open>The rows of one protein in a frame.\<close>

definition rows_of :: "string \<Rightarrow> ('a raw_row_scheme) frame \<Rightarrow> ('a raw_row_scheme) frame" where
  "rows_of p frame = filter (\<lambda>(i, r). Protein r = p) frame"

section \<open>DrugProteinNN\<close>

text \<open>
  Tensors are lists of real numbers: a batch is the list of its rows. The float32
  arithmetic of the tensor library is read as exact arithmetic on the reals.

  \<^verbatim>\<open>nn.Linear(in_features, out_features)\<close> holds a weight matrix of \<open>out_features\<close> rows
  and \<open>in_features\<close> columns and a bias vector; applied to a batch it maps every row
  \<open>x\<close> to \<open>x W\<^sup>T + b\<close>, and raises RuntimeError for rows of another width.
\<close>

record linear =
  in_features :: nat
  out_features :: nat
  weight :: "real list list"
  bias :: "real list"

definition dot :: "real list \<Rightarrow> real list \<Rightarrow> real" where
  "dot w x = sum_list (map2 (*) w x)"

definition linear_row :: "linear \<Rightarrow> real list \<Rightarrow> real list" where
  "linear_row l x = map2 (\<lambda>w b. dot w x + b) (weight l) (bias l)"

definition linear_forward :: "linear \<Rightarrow> real list list \<Rightarrow> error + real list list" where
  "linear_forward l X =
     (if \<exists>x \<in> set X. length x \<noteq> in_features l then Inl RuntimeError
      else Inr (map (linear_row l) X))"

text \<open>
  \<^verbatim>\<open>nn.BatchNorm1d(num_features)\<close>, with the defaults \<open>eps = 1e-5\<close> and
  \<open>momentum = 0.1\<close>. In evaluation mode every feature is standardised with the running
  statistics. In training mode it is standardised with the mean and the (biased)
  variance of the batch, the running statistics move towards the batch statistics
  (the unbiased variance for the running variance), and a batch of one row is refused
  with ValueError. An empty batch gives an empty output and leaves the running
  statistics as they are.
\<close>

record batch_norm =
  num_features :: nat
  gamma :: "real list"
  beta :: "real list"
  running_mean :: "real list"
  running_var :: "real list"

definition eps :: real where
  "eps = 1 / 100000"

definition momentum :: real where
  "momentum = 1 / 10"

definition normalize_row ::
  "real list \<Rightarrow> real list \<Rightarrow> real list \<Rightarrow> real list \<Rightarrow> real list \<Rightarrow> real list" where
  "normalize_row mean var g b x =
     map (\<lambda>(v, mu, s2, gj, bj). (v - mu) / sqrt (s2 + eps) * gj + bj)
       (zip x (zip mean (zip var (zip g b))))"

definition column :: "real list list \<Rightarrow> nat \<Rightarrow> real list" where
  "column X j = map (\<lambda>x. x ! j) X"

definition batch_mean :: "real list list \<Rightarrow> nat \<Rightarrow> real" where
  "batch_mean X j = sum_list (column X j) / real (length X)"

definition batch_var :: "real list list \<Rightarrow> nat \<Rightarrow> real" where
  "batch_var X j =
     sum_list (map (\<lambda>v. (v - batch_mean X j)\<^sup>2) (column X j)) / real (length X)"

definition batch_norm_forward ::
  "bool \<Rightarrow> batch_norm \<Rightarrow> real list list \<Rightarrow> error + (real list list \<times> batch_norm)" where
  "batch_norm_forward training bn X =
     (if \<exists>x \<in> set X. length x \<noteq> num_features bn then Inl RuntimeError
      else if training then
        (if length X = 1 then Inl ValueError
         else if X = [] then Inr ([], bn)
         else
           let n = real (length X);
               mean = map (batch_mean X) [0..<num_features bn];
               var = map (batch_var X) [0..<num_features bn]
           in Inr (map (normalize_row mean var (gamma bn) (beta bn)) X,
                   bn\<lparr>running_mean :=
                        map2 (\<lambda>r mu. (1 - momentum) * r + momentum * mu) (running_mean bn) mean,
                      running_var :=
                        map2 (\<lambda>r s2. (1 - momentum) * r + momentum * (s2 * n / (n - 1)))
                          (running_var bn) var\<rparr>))
      else Inr (map (normalize_row (running_mean bn) (running_var bn) (gamma bn) (beta bn)) X,
                bn))"

definition relu :: "real list list \<Rightarrow> real list list" where
  "relu X = map (map (\<lambda>v. max 0 v)) X"

text \<open>
  The module: the seven layers of \<open>__init__\<close> and the training flag of \<open>nn.Module\<close>
  (set by \<^verbatim>\<open>model.train()\<close>, cleared by \<^verbatim>\<open>model.eval()\<close>).
\<close>

record DrugProteinNN =
  fc1 :: linear
  bn1 :: batch_norm
  fc2 :: linear
  bn2 :: batch_norm
  fc3 :: linear
  bn3 :: batch_norm
  fc4 :: linear
  training :: bool

text \<open>
  \<open>__init__\<close>. The constructors \<^verbatim>\<open>nn.Linear(in_features, out_features)\<close> and
  \<^verbatim>\<open>nn.BatchNorm1d(num_features)\<close> fix the shapes of the tensors of a layer. The values
  in the tensors are the random initialisation and then whatever training makes of
  them; neither changes a shape. The values are therefore parameters of the
  constructors here, given as functions of the indices: \<open>w j k\<close> is the weight of
  output \<open>j\<close> on input \<open>k\<close>, \<open>b j\<close> the bias of output \<open>j\<close>, and for a
  normalisation \<open>g j\<close>, \<open>be j\<close>, \<open>rm j\<close> and \<open>rv j\<close> are the scale, the shift, the
  running mean and the running variance of feature \<open>j\<close>.
\<close>

definition Linear :: "nat \<Rightarrow> nat \<Rightarrow> (nat \<Rightarrow> nat \<Rightarrow> real) \<Rightarrow> (nat \<Rightarrow> real) \<Rightarrow> linear" where
  "Linear n_in n_out w b =
     \<lparr>in_features = n_in, out_features = n_out,
      weight = map (\<lambda>j. map (\<lambda>k. w j k) [0..<n_in]) [0..<n_out],
      bias = map b [0..<n_out]\<rparr>"

definition BatchNorm1d ::
  "nat \<Rightarrow> (nat \<Rightarrow> real) \<Rightarrow> (nat \<Rightarrow> real) \<Rightarrow> (nat \<Rightarrow> real) \<Rightarrow> (nat \<Rightarrow> real) \<Rightarrow> batch_norm" where
  "BatchNorm1d n g be rm rv =
     \<lparr>num_features = n, gamma = map g [0..<n], beta = map be [0..<n],
      running_mean = map rm [0..<n], running_var = map rv [0..<n]\<rparr>"

text \<open>The values of the tensors of the seven layers.\<close>

record tensor_values =
  w1 :: "nat \<Rightarrow> nat \<Rightarrow> real"
  b1 :: "nat \<Rightarrow> real"
  g1 :: "nat \<Rightarrow> real"
  be1 :: "nat \<Rightarrow> real"
  rm1 :: "nat \<Rightarrow> real"
  rv1 :: "nat \<Rightarrow> real"
  w2 :: "nat \<Rightarrow> nat \<Rightarrow> real"
  b2 :: "nat \<Rightarrow> real"
  g2 :: "nat \<Rightarrow> real"
  be2 :: "nat \<Rightarrow> real"
  rm2 :: "nat \<Rightarrow> real"
  rv2 :: "nat \<Rightarrow> real"
  w3 :: "nat \<Rightarrow> nat \<Rightarrow> real"
  b3 :: "nat \<Rightarrow> real"
  g3 :: "nat \<Rightarrow> real"
  be3 :: "nat \<Rightarrow> real"
  rm3 :: "nat \<Rightarrow> real"
  rv3 :: "nat \<Rightarrow> real"
  w4 :: "nat \<Rightarrow> nat \<Rightarrow> real"
  b4 :: "nat \<Rightarrow> real"

definition DrugProteinNN_init :: "nat \<Rightarrow> tensor_values \<Rightarrow> bool \<Rightarrow> DrugProteinNN" where
  "DrugProteinNN_init input_size v mode =
     \<lparr>fc1 = Linear input_size 512 (w1 v) (b1 v),
      bn1 = BatchNorm1d 512 (g1 v) (be1 v) (rm1 v) (rv1 v),
      fc2 = Linear 512 256 (w2 v) (b2 v),
      bn2 = BatchNorm1d 256 (g2 v) (be2 v) (rm2 v) (rv2 v),
      fc3 = Linear 256 128 (w3 v) (b3 v),
      bn3 = BatchNorm1d 128 (g3 v) (be3 v) (rm3 v) (rv3 v),
      fc4 = Linear 128 1 (w4 v) (b4 v),
      training = mode\<rparr>"

text \<open>
  \<open>forward\<close>, with the module it leaves behind (in training mode the running
  statistics of the three normalisations change).
\<close>

definition forward ::
  "DrugProteinNN \<Rightarrow> real list list \<Rightarrow> error + (real list list \<times> DrugProteinNN)" where
  "forward m x =
     (case linear_forward (fc1 m) x of Inl e \<Rightarrow> Inl e | Inr a1 \<Rightarrow>
      case batch_norm_forward (training m) (bn1 m) a1 of Inl e \<Rightarrow> Inl e | Inr (n1, bn1') \<Rightarrow>
      case linear_forward (fc2 m) (relu n1) of Inl e \<Rightarrow> Inl e | Inr a2 \<Rightarrow>
      case batch_norm_forward (training m) (bn2 m) a2 of Inl e \<Rightarrow> Inl e | Inr (n2, bn2') \<Rightarrow>
      case linear_forward (fc3 m) (relu n2) of Inl e \<Rightarrow> Inl e | Inr a3 \<Rightarrow>
      case batch_norm_forward (training m) (bn3 m) a3 of Inl e \<Rightarrow> Inl e | Inr (n3, bn3') \<Rightarrow>
      case linear_forward (fc4 m) (relu n3) of Inl e \<Rightarrow> Inl e | Inr a4 \<Rightarrow>
        Inr (a4, m\<lparr>bn1 := bn1', bn2 := bn2', bn3 := bn3'\<rparr>))"

text \<open>\<^verbatim>\<open>model.eval()\<close>\<close>

definition eval_mode :: "DrugProteinNN \<Rightarrow> DrugProteinNN" where
  "eval_mode m = m\<lparr>training := False\<rparr>"

text \<open>
  The forward pass in the words of the specification, written on the values of the
  tensors with explicit sums: a linear transform gives, for output \<open>j\<close>, the weighted
  sum of the inputs plus the bias; batch normalisation standardises feature \<open>j\<close> with
  a mean and a variance, the batch's in training mode and the running ones otherwise,
  then scales and shifts; the rectified-linear activation replaces a negative value
  by 0. Three such stages of widths 512, 256 and 128 follow each other, and a fourth
  linear transform of width 1 gives the output, with nothing applied to it.
\<close>

definition spec_linear :: "(nat \<Rightarrow> nat \<Rightarrow> real) \<Rightarrow> (nat \<Rightarrow> real) \<Rightarrow> nat \<Rightarrow> real list \<Rightarrow> nat \<Rightarrow> real" where
  "spec_linear w b n_in x j = (\<Sum>k = 0..<n_in. w j k * x ! k) + b j"

definition spec_mean :: "real list \<Rightarrow> real" where
  "spec_mean zs = (\<Sum>r = 0..<length zs. zs ! r) / real (length zs)"

definition spec_variance :: "real list \<Rightarrow> real" where
  "spec_variance zs = (\<Sum>r = 0..<length zs. (zs ! r - spec_mean zs)\<^sup>2) / real (length zs)"

definition spec_stage ::
  "bool \<Rightarrow> nat \<Rightarrow> nat \<Rightarrow> (nat \<Rightarrow> nat \<Rightarrow> real) \<Rightarrow> (nat \<Rightarrow> real) \<Rightarrow> (nat \<Rightarrow> real) \<Rightarrow> (nat \<Rightarrow> real) \<Rightarrow>
   (nat \<Rightarrow> real) \<Rightarrow> (nat \<Rightarrow> real) \<Rightarrow> real list list \<Rightarrow> real list list" where
  "spec_stage mode n_in n_out w b g be rm rv X =
     map (\<lambda>x. map (\<lambda>j.
         let z = spec_linear w b n_in x j;
             zs = map (\<lambda>x'. spec_linear w b n_in x' j) X;
             mu = (if mode then spec_mean zs else rm j);
             s2 = (if mode then spec_variance zs else rv j);
             standardised = (z - mu) / sqrt (s2 + 1 / 100000) * g j + be j
         in if standardised < 0 then 0 else standardised) [0..<n_out]) X"

definition spec_forward :: "nat \<Rightarrow> tensor_values \<Rightarrow> bool \<Rightarrow> real list list \<Rightarrow> real list list" where
  "spec_forward input_size v mode X =
     (let h1 = spec_stage mode input_size 512 (w1 v) (b1 v) (g1 v) (be1 v) (rm1 v) (rv1 v) X;
          h2 = spec_stage mode 512 256 (w2 v) (b2 v) (g2 v) (be2 v) (rm2 v) (rv2 v) h1;
          h3 = spec_stage mode 256 128 (w3 v) (b3 v) (g3 v) (be3 v) (rm3 v) (rv3 v) h2
      in map (\<lambda>h. [spec_linear (w4 v) (b4 v) 128 h 0]) h3)"

section \<open>evaluate_model_with_metrics\<close>

text \<open>
  The five statistics are computed by library functions on the arrays of true and
  predicted affinities. The arrays are lists of reals (finite floats, arithmetic read
  as exact); a returned statistic is a number or the float NaN.
\<close>

datatype pyfloat = Num real | NaN

subsection \<open>Collecting the predictions\<close>

text \<open>
  \<^verbatim>\<open>model(X_batch).squeeze()\<close> drops every dimension of size 1: the output of shape
  \<open>(b, 1)\<close> becomes a vector of \<open>b\<close> values, and a 0-dimensional tensor when
  \<open>b = 1\<close>. \<^verbatim>\<open>list.extend\<close> of a 0-dimensional array raises TypeError. An output whose
  rows do not have exactly one value stays a matrix (or becomes a vector of another
  length), and scikit-learn then refuses the arrays with ValueError.
\<close>

datatype tensor = Scalar real | Vector "real list" | Other

definition squeeze :: "real list list \<Rightarrow> tensor" where
  "squeeze Y =
     (if \<exists>y \<in> set Y. length y \<noteq> 1 then Other
      else if length Y = 1 then Scalar (hd (hd Y))
      else Vector (map hd Y))"

fun collect ::
  "DrugProteinNN \<Rightarrow> (real list list \<times> real list) list \<Rightarrow> real list \<Rightarrow> real list \<Rightarrow>
   error + (real list \<times> real list)" where
  "collect model [] y_true y_pred = Inr (y_true, y_pred)"
| "collect model ((X_batch, y_batch) # batches) y_true y_pred =
     (case forward model X_batch of
        Inl e \<Rightarrow> Inl e
      | Inr (outputs, model') \<Rightarrow>
          (case squeeze outputs of
             Scalar v \<Rightarrow> Inl TypeError
           | Other \<Rightarrow> Inl ValueError
           | Vector vs \<Rightarrow> collect model' batches (y_true @ y_batch) (y_pred @ vs)))"

subsection \<open>scikit-learn: mean_squared_error and r2_score\<close>

text \<open>Both refuse arrays of different lengths and empty arrays with ValueError.\<close>

definition mean_squared_error :: "real list \<Rightarrow> real list \<Rightarrow> error + pyfloat" where
  "mean_squared_error y_true y_pred =
     (if length y_true \<noteq> length y_pred \<or> y_true = [] then Inl ValueError
      else Inr (Num (sum_list (map2 (\<lambda>t p. (t - p)\<^sup>2) y_true y_pred) / real (length y_true))))"

text \<open>
  With fewer than two samples \<open>r2_score\<close> warns and returns NaN. With a zero total
  sum of squares it returns 1 for a perfect prediction and 0 otherwise.
\<close>

definition r2_score :: "real list \<Rightarrow> real list \<Rightarrow> error + pyfloat" where
  "r2_score y_true y_pred =
     (if length y_true \<noteq> length y_pred \<or> y_true = [] then Inl ValueError
      else if length y_pred < 2 then Inr NaN
      else
        let numerator = sum_list (map2 (\<lambda>t p. (t - p)\<^sup>2) y_true y_pred);
            mean = sum_list y_true / real (length y_true);
            denominator = sum_list (map (\<lambda>t. (t - mean)\<^sup>2) y_true)
        in if denominator \<noteq> 0 then Inr (Num (1 - numerator / denominator))
           else if numerator \<noteq> 0 then Inr (Num 0)
           else Inr (Num 1))"

subsection \<open>lifelines: concordance_index\<close>

text \<open>
  With every event observed, \<open>concordance_index\<close> sorts the samples by true value and
  walks through the groups of equal true value. A balanced tree holds the predictions
  of the samples of smaller true value; \<open>rank\<close> gives, for a prediction, how many
  values in the tree are smaller and how many are equal. The tree is modelled by the
  list of the values inserted. Each sample of a group forms a pair with each value in
  the tree: the smaller ones are correct pairs, the equal ones tied pairs.
\<close>

definition rank :: "real list \<Rightarrow> real \<Rightarrow> nat \<times> nat" where
  "rank tree v = (length (filter (\<lambda>u. u < v) tree), length (filter (\<lambda>u. u = v) tree))"

function concordance_loop ::
  "(real \<times> real) list \<Rightarrow> real list \<Rightarrow> nat \<times> nat \<times> nat \<Rightarrow> nat \<times> nat \<times> nat" where
  "concordance_loop [] tree acc = acc"
| "concordance_loop ((t, p) # rest) tree (num_correct, num_tied, num_pairs) =
     (let group = (t, p) # takeWhile (\<lambda>(t', p'). t' = t) rest;
          pairs = length tree * length group;
          correct = sum_list (map (\<lambda>(t', p'). fst (rank tree p')) group);
          tied = sum_list (map (\<lambda>(t', p'). snd (rank tree p')) group)
      in concordance_loop (dropWhile (\<lambda>(t', p'). t' = t) rest) (map snd group @ tree)
           (num_correct + correct, num_tied + tied, num_pairs + pairs))"
  by pat_completeness auto
termination
  by (relation "measure (\<lambda>(xs, tree, acc). length xs)")
    (auto simp: length_dropWhile_le less_Suc_eq_le)

definition concordance_index :: "real list \<Rightarrow> real list \<Rightarrow> error + pyfloat" where
  "concordance_index event_times predicted_scores =
     (if length event_times \<noteq> length predicted_scores then Inl ValueError
      else
        case concordance_loop (sort_key fst (zip event_times predicted_scores)) [] (0, 0, 0) of
          (num_correct, num_tied, num_pairs) \<Rightarrow>
            if num_pairs = 0 then Inl ZeroDivisionError
            else Inr (Num ((real num_correct + real num_tied / 2) / real num_pairs)))"

subsection \<open>scipy: pearsonr\<close>

text \<open>
  \<open>pearsonr\<close> refuses fewer than two samples with ValueError, warns and returns NaN
  for a constant input, returns the product of the signs of the two differences for
  two samples, and otherwise the inner product of the centred and normalised arrays,
  clipped to \<open>[-1, 1]\<close>.
\<close>

definition pearsonr :: "real list \<Rightarrow> real list \<Rightarrow> error + pyfloat" where
  "pearsonr x y =
     (let n = length x
      in if n \<noteq> length y then Inl ValueError
         else if n < 2 then Inl ValueError
         else if (\<forall>v \<in> set x. v = x ! 0) \<or> (\<forall>v \<in> set y. v = y ! 0) then Inr NaN
         else if n = 2 then Inr (Num (sgn (x ! 1 - x ! 0) * sgn (y ! 1 - y ! 0)))
         else
           let xmean = sum_list x / real n;
               ymean = sum_list y / real n;
               xm = map (\<lambda>v. v - xmean) x;
               ym = map (\<lambda>v. v - ymean) y;
               normxm = sqrt (sum_list (map (\<lambda>v. v\<^sup>2) xm));
               normym = sqrt (sum_list (map (\<lambda>v. v\<^sup>2) ym));
               r = sum_list (map2 (\<lambda>a b. (a / normxm) * (b / normym)) xm ym)
           in Inr (Num (max (min r 1) (- 1))))"

subsection \<open>scikit-learn: precision_recall_curve and auc\<close>

text \<open>
  \<open>_binary_clf_curve\<close>: the samples are sorted by decreasing score (a stable
  ascending sort, reversed); the thresholds are the positions where the score changes
  and the last position; at each threshold the true positives are the positive labels
  up to it and the false positives the other samples up to it.
\<close>

definition binary_clf_curve ::
  "bool list \<Rightarrow> real list \<Rightarrow> real list \<times> real list \<times> real list" where
  "binary_clf_curve y_true y_score =
     (let desc = rev (sort_key snd (zip y_true y_score));
          y_true = map fst desc;
          y_score = map snd desc;
          distinct_value_indices =
            filter (\<lambda>i. y_score ! i \<noteq> y_score ! (i + 1)) [0..<length y_score - 1];
          threshold_idxs = distinct_value_indices @ [length y_true - 1];
          tps = map (\<lambda>i. sum_list (map (\<lambda>b. if b then 1 else 0) (take (i + 1) y_true)))
                  threshold_idxs;
          fps = map2 (\<lambda>i tp. 1 + real i - tp) threshold_idxs tps
      in (fps, tps, map (\<lambda>i. y_score ! i) threshold_idxs))"

text \<open>
  \<open>precision_recall_curve\<close> (scikit-learn 1.3 and later, the versions for the Python
  3.12 of the notebook): precision is \<open>tps / (tps + fps)\<close>, recall is \<open>tps\<close> over the
  number of positives, or 1 everywhere, with a warning, when there is no positive label;
  the curves are reversed and the point of precision 1 and recall 0 is appended.
\<close>

definition precision_recall_curve ::
  "bool list \<Rightarrow> real list \<Rightarrow> error + (real list \<times> real list \<times> real list)" where
  "precision_recall_curve y_true probas_pred =
     (if length y_true \<noteq> length probas_pred \<or> y_true = [] then Inl ValueError
      else
        case binary_clf_curve y_true probas_pred of
          (fps, tps, thresholds) \<Rightarrow>
            let ps = map2 (+) tps fps;
                precision = map2 (\<lambda>tp p. if p \<noteq> 0 then tp / p else 0) tps ps;
                recall = (if last tps = 0 then map (\<lambda>tp. 1) tps
                          else map (\<lambda>tp. tp / last tps) tps)
            in Inr (rev precision @ [1], rev recall @ [0], rev thresholds))"

fun diff :: "real list \<Rightarrow> real list" where
  "diff (a # b # xs) = (b - a) # diff (b # xs)"
| "diff xs = []"

text \<open>\<^verbatim>\<open>numpy.trapz(y, x)\<close>\<close>

fun trapezoid :: "real list \<Rightarrow> real list \<Rightarrow> real" where
  "trapezoid (y0 # y1 # ys) (x0 # x1 # xs) =
     (x1 - x0) * (y0 + y1) / 2 + trapezoid (y1 # ys) (x1 # xs)"
| "trapezoid ys xs = 0"

text \<open>
  \<open>auc(x, y)\<close> needs at least two points and an \<open>x\<close> that is increasing or
  decreasing, and integrates by the trapezoidal rule.
\<close>

definition auc :: "real list \<Rightarrow> real list \<Rightarrow> error + pyfloat" where
  "auc x y =
     (if length x \<noteq> length y then Inl ValueError
      else if length x < 2 then Inl ValueError
      else if \<exists>d \<in> set (diff x). d < 0 then
        (if \<forall>d \<in> set (diff x). d \<le> 0 then Inr (Num (- trapezoid y x))
         else Inl ValueError)
      else Inr (Num (trapezoid y x)))"

subsection \<open>The evaluator\<close>

text \<open>The returned tuple \<open>(mse, r2, ci, pearson_corr, aupr)\<close>. Printing is left out.\<close>

record metrics =
  mse :: pyfloat
  r2 :: pyfloat
  ci :: pyfloat
  pearson_corr :: pyfloat
  aupr :: pyfloat

text \<open>
  \<^verbatim>\<open>y_true > 12.1\<close> compares an array of float32 values with the constant, and the
  comparison is made in float32: the threshold is 12.1 rounded to float32, which is
  \<open>12687770 / 2 ^ 20\<close>.
\<close>

definition threshold :: real where
  "threshold = 12687770 / 1048576"

definition compute_metrics :: "real list \<Rightarrow> real list \<Rightarrow> error + metrics" where
  "compute_metrics y_true y_pred =
     (case mean_squared_error y_true y_pred of Inl e \<Rightarrow> Inl e | Inr mse_v \<Rightarrow>
      case r2_score y_true y_pred of Inl e \<Rightarrow> Inl e | Inr r2_v \<Rightarrow>
      case concordance_index y_true y_pred of Inl e \<Rightarrow> Inl e | Inr ci_v \<Rightarrow>
      case pearsonr y_true y_pred of Inl e \<Rightarrow> Inl e | Inr pearson_v \<Rightarrow>
      case precision_recall_curve (map (\<lambda>t. threshold < t) y_true) y_pred of
        Inl e \<Rightarrow> Inl e
      | Inr (precision, recall, thresholds) \<Rightarrow>
      case auc recall precision of Inl e \<Rightarrow> Inl e | Inr aupr_v \<Rightarrow>
        Inr \<lparr>mse = mse_v, r2 = r2_v, ci = ci_v, pearson_corr = pearson_v, aupr = aupr_v\<rparr>)"

text \<open>
  \<open>evaluate_model_with_metrics\<close>. The test loader is the list of the batches it
  yields, each a pair of the feature rows and the true affinities.
\<close>

definition evaluate_model_with_metrics ::
  "DrugProteinNN \<Rightarrow> (real list list \<times> real list) list \<Rightarrow> error + metrics" where
  "evaluate_model_with_metrics model test_loader =
     (case collect (eval_mode model) test_loader [] [] of
        Inl e \<Rightarrow> Inl e
      | Inr (y_true, y_pred) \<Rightarrow> compute_metrics y_true y_pred)"

text \<open>
  The concordance index in the words of the specification: over all pairs of samples
  whose true affinities differ, the share of pairs whose predictions are in the same
  order as the true affinities, a pair with equal predictions counting one half.
\<close>

definition pair_credit :: "real \<times> real \<Rightarrow> real \<times> real \<Rightarrow> real" where
  "pair_credit a b =
     (if snd a = snd b then 1 / 2
      else if (fst a < fst b) = (snd a < snd b) then 1 else 0)"

definition concordant_fraction :: "real list \<Rightarrow> real list \<Rightarrow> real" where
  "concordant_fraction y_true y_pred =
     (let samples = zip y_true y_pred
      in (\<Sum>a\<leftarrow>samples. \<Sum>b\<leftarrow>samples. if fst a \<noteq> fst b then pair_credit a b else 0) /
         (\<Sum>a\<leftarrow>samples. \<Sum>b\<leftarrow>samples. if fst a \<noteq> fst b then 1 else 0))"

subsection \<open>Counting pairs\<close>

text \<open>
  For the proofs about the concordance index: the number of pairs \<open>(a, b)\<close> with \<open>a\<close>
  from one list and \<open>b\<close> from another that stand in a relation, and the three
  relations counted, on samples \<open>(true value, prediction)\<close>.
\<close>

definition count_pairs :: "('a \<Rightarrow> 'a \<Rightarrow> bool) \<Rightarrow> 'a list \<Rightarrow> 'a list \<Rightarrow> nat" where
  "count_pairs R as bs = (\<Sum>b\<leftarrow>bs. length (filter (\<lambda>a. R a b) as))"

definition correct_pair :: "real \<times> real \<Rightarrow> real \<times> real \<Rightarrow> bool" where
  "correct_pair a b \<longleftrightarrow> fst a < fst b \<and> snd a < snd b"

definition tied_pair :: "real \<times> real \<Rightarrow> real \<times> real \<Rightarrow> bool" where
  "tied_pair a b \<longleftrightarrow> fst a < fst b \<and> snd a = snd b"

definition ordered_pair :: "real \<times> real \<Rightarrow> real \<times> real \<Rightarrow> bool" where
  "ordered_pair a b \<longleftrightarrow> fst a < fst b"

section \<open>Example inputs\<close>

text \<open>A frame of 75 rows, each of a protein of its own, and the generator that leaves
  every range in order.\<close>

definition frame75 :: "raw_row frame" where
  "frame75 = map (\<lambda>i. (i, \<lparr>Drug = ''d'', Protein = replicate (Suc i) CHR ''p'',
       SMILES = ''C'', Sequence = ''A'', Affinity = 1\<rparr>)) [0..<75]"

definition in_order :: "nat \<Rightarrow> nat list" where
  "in_order n = [0..<n]"

text \<open>A frame of four rows: three of one protein and one of another.\<close>

definition frame4 :: "raw_row frame" where
  "frame4 =
     [(0, \<lparr>Drug = ''d1'', Protein = ''P1'', SMILES = ''CCO'', Sequence = ''ACD'', Affinity = 5\<rparr>),
      (1, \<lparr>Drug = ''d2'', Protein = ''P1'', SMILES = ''CN'', Sequence = ''ACD'', Affinity = 6\<rparr>),
      (2, \<lparr>Drug = ''d3'', Protein = ''P1'', SMILES = ''C'', Sequence = ''ACD'', Affinity = 7\<rparr>),
      (3, \<lparr>Drug = ''d1'', Protein = ''P2'', SMILES = ''CCO'', Sequence = ''WY'', Affinity = 13\<rparr>)]"

text \<open>
  A module for one input feature that hands the first feature through: every linear
  layer copies its first input to its first output and sets the others to 0, and every
  normalisation is the identity in evaluation mode. A module starts in training mode.
\<close>

definition select_first :: "nat \<Rightarrow> nat \<Rightarrow> linear" where
  "select_first n_in n_out =
     \<lparr>in_features = n_in, out_features = n_out,
      weight = (1 # replicate (n_in - 1) 0) # replicate (n_out - 1) (replicate n_in 0),
      bias = replicate n_out 0\<rparr>"

definition identity_norm :: "nat \<Rightarrow> batch_norm" where
  "identity_norm n =
     \<lparr>num_features = n, gamma = replicate n 1, beta = replicate n 0,
      running_mean = replicate n 0, running_var = replicate n (1 - eps)\<rparr>"

definition first_feature_model :: DrugProteinNN where
  "first_feature_model =
     \<lparr>fc1 = select_first 1 512, bn1 = identity_norm 512,
      fc2 = select_first 512 256, bn2 = identity_norm 256,
      fc3 = select_first 256 128, bn3 = identity_norm 128,
      fc4 = select_first 128 1, training = True\<rparr>"

text \<open>
  Values for the tensors of a module: all weights 0, the normalisations at the
  defaults of the constructor, and the bias of the last layer at -3.
\<close>

definition example_values :: tensor_values where
  "example_values =
     \<lparr>w1 = (\<lambda>j k. 0), b1 = (\<lambda>j. 0), g1 = (\<lambda>j. 1), be1 = (\<lambda>j. 0), rm1 = (\<lambda>j. 0), rv1 = (\<lambda>j. 1),
      w2 = (\<lambda>j k. 0), b2 = (\<lambda>j. 0), g2 = (\<lambda>j. 1), be2 = (\<lambda>j. 0), rm2 = (\<lambda>j. 0), rv2 = (\<lambda>j. 1),
      w3 = (\<lambda>j k. 0), b3 = (\<lambda>j. 0), g3 = (\<lambda>j. 1), be3 = (\<lambda>j. 0), rm3 = (\<lambda>j. 0), rv3 = (\<lambda>j. 1),
      w4 = (\<lambda>j k. 0), b4 = (\<lambda>j. - 3)\<rparr>"

section \<open>Properties of the encoder\<close>

lemma list_times_zero: "list_times [x] n = replicate (nat n) x"
  by (induction "nat n" arbitrary: n) (simp_all add: list_times_def)

lemma fold_enumerate_dict_notin:
  "x \<notin> set xs \<Longrightarrow> fold dict_put (enumerate k xs) m x = m x"
  by (induction xs arbitrary: k m) (auto simp: dict_put_def)

lemma fold_enumerate_dict_nth:
  "distinct xs \<Longrightarrow> i < length xs \<Longrightarrow>
   fold dict_put (enumerate k xs) m (xs ! i) = Some (Suc (k + i))"
proof (induction xs arbitrary: k m i)
  case Nil
  then show ?case by simp
next
  case (Cons a xs)
  show ?case
  proof (cases i)
    case 0
    have "fold dict_put (enumerate (Suc k) xs) (dict_put (k, a) m) a = dict_put (k, a) m a"
      using Cons.prems by (intro fold_enumerate_dict_notin) simp
    with 0 show ?thesis by (simp add: dict_put_def)
  next
    case (Suc j)
    with Cons.prems Cons.IH [of j "Suc k" "dict_put (k, a) m"] show ?thesis by simp
  qed
qed

lemma enumerate_dict_nth:
  "distinct xs \<Longrightarrow> i < length xs \<Longrightarrow> enumerate_dict xs (xs ! i) = Some (Suc i)"
  using fold_enumerate_dict_nth [of xs i 0 Map.empty] by (simp add: enumerate_dict_def)

lemma enumerate_dict_notin: "c \<notin> set xs \<Longrightarrow> enumerate_dict xs c = None"
  using fold_enumerate_dict_notin [of c xs 0 Map.empty] by (simp add: enumerate_dict_def)

lemma get0_enumerate_dict_nth:
  "distinct xs \<Longrightarrow> i < length xs \<Longrightarrow> get0 (enumerate_dict xs) (xs ! i) = i + 1"
  by (simp add: get0_def enumerate_dict_nth)

lemma get0_enumerate_dict_notin:
  "c \<notin> set xs \<Longrightarrow> get0 (enumerate_dict xs) c = 0"
  by (simp add: get0_def enumerate_dict_notin)

lemma distinct_amino_acids: "distinct amino_acids"
  by (simp add: amino_acids_def)

lemma length_amino_acids: "length amino_acids = 20"
  by (simp add: amino_acids_def)

lemma encode_string_length:
  "length s \<le> L \<Longrightarrow> length (encode_string d L s) = L"
  by (simp add: encode_string_def list_times_zero)

lemma encode_string_prefix:
  "j < length s \<Longrightarrow> encode_string d L s ! j = get0 d (s ! j)"
  by (simp add: encode_string_def nth_append)

lemma encode_string_padding:
  "length s \<le> j \<Longrightarrow> j < L \<Longrightarrow> encode_string d L s ! j = 0"
  by (simp add: encode_string_def list_times_zero nth_append)

lemma encode_string_long:
  "L < length s \<Longrightarrow> encode_string d L s = map (get0 d) s"
  by (simp add: encode_string_def list_times_zero)

lemma encode_string_padded:
  "length s \<le> L \<Longrightarrow> padded_encoding (get0 d) L s (encode_string d L s)"
  by (simp add: padded_encoding_def encode_string_length encode_string_prefix
      encode_string_padding)

lemma encode_sequences_nonempty:
  assumes "df \<noteq> []"
  shows "encode_sequences set_iter df =
     Inr (map (\<lambda>(i, r).
        (i, \<lparr>Drug = Drug r, Protein = Protein r, SMILES = SMILES r,
             Sequence = Sequence r, Affinity = Affinity r,
             Encoded_Sequence = encode_string aa_to_num
               (Max (set (map (\<lambda>(i, r). length (Sequence r)) df))) (Sequence r),
             Encoded_SMILES = encode_string
               (enumerate_dict (set_iter (concat (map (\<lambda>(i, r). SMILES r) df))))
               (Max (set (map (\<lambda>(i, r). length (SMILES r)) df))) (SMILES r)\<rparr>)) df)"
  using assms by (simp add: encode_sequences_def py_max_def)

text \<open>
  Claim C1. For a non-empty corpus, \<open>encode_sequences\<close> returns a frame with the same
  rows and index labels, in which, for every row, the encoded protein sequence is the
  padded encoding of the row's sequence under the amino-acid vocabulary, of length the
  maximum sequence length of the corpus, and the encoded SMILES is the padded encoding
  of the row's SMILES under the vocabulary of the corpus, of length the maximum SMILES
  length of the corpus. The amino-acid vocabulary sends the letter at position \<open>i\<close> of
  ACDEFGHIKLMNPQRSTVWY to \<open>i + 1\<close> and every other character to 0; the SMILES
  vocabulary sends the \<open>i\<close>-th character of the set's iteration order to \<open>i + 1\<close>, and
  every character of a SMILES of the corpus is in it.
\<close>

theorem encode_sequences_padded:
  assumes order: "set_order set_iter" and nonempty: "df \<noteq> []"
  shows "\<exists>df'. encode_sequences set_iter df = Inr df' \<and> length df' = length df \<and>
    (\<forall>i < 20. get0 aa_to_num (''ACDEFGHIKLMNPQRSTVWY'' ! i) = i + 1) \<and>
    (\<forall>c. c \<notin> set ''ACDEFGHIKLMNPQRSTVWY'' \<longrightarrow> get0 aa_to_num c = 0) \<and>
    (\<forall>k < length df.
       fst (df' ! k) = fst (df ! k) \<and>
       padded_encoding (get0 aa_to_num)
         (Max (set (map (\<lambda>(i, r). length (Sequence r)) df)))
         (Sequence (snd (df ! k))) (Encoded_Sequence (snd (df' ! k))) \<and>
       padded_encoding
         (get0 (enumerate_dict (set_iter (concat (map (\<lambda>(i, r). SMILES r) df)))))
         (Max (set (map (\<lambda>(i, r). length (SMILES r)) df)))
         (SMILES (snd (df ! k))) (Encoded_SMILES (snd (df' ! k))) \<and>
       (\<forall>c \<in> set (SMILES (snd (df ! k))).
          \<exists>i < length (set_iter (concat (map (\<lambda>(i, r). SMILES r) df))).
            set_iter (concat (map (\<lambda>(i, r). SMILES r) df)) ! i = c \<and>
            get0 (enumerate_dict (set_iter (concat (map (\<lambda>(i, r). SMILES r) df)))) c = i + 1))"
proof -
  let ?cs = "set_iter (concat (map (\<lambda>(i, r). SMILES r) df))"
  let ?Lq = "Max (set (map (\<lambda>(i, r). length (Sequence r)) df))"
  let ?Ls = "Max (set (map (\<lambda>(i, r). length (SMILES r)) df))"
  have cs: "distinct ?cs" "set ?cs = set (concat (map (\<lambda>(i, r). SMILES r) df))"
    using order by (simp_all add: set_order_def)
  have aa: "\<forall>i < 20. get0 aa_to_num (''ACDEFGHIKLMNPQRSTVWY'' ! i) = i + 1"
    using get0_enumerate_dict_nth [OF distinct_amino_acids]
    by (simp add: aa_to_num_def amino_acids_def)
  have unknown: "\<forall>c. c \<notin> set ''ACDEFGHIKLMNPQRSTVWY'' \<longrightarrow> get0 aa_to_num c = 0"
    using get0_enumerate_dict_notin [of _ amino_acids]
    by (simp add: aa_to_num_def amino_acids_def)
  have rows: "fst (map (\<lambda>(i, r). (i, f r)) df ! k) = fst (df ! k)"
    "snd (map (\<lambda>(i, r). (i, f r)) df ! k) = f (snd (df ! k))"
    if "k < length df" for k and f :: "raw_row \<Rightarrow> row"
    using that by (simp_all add: case_prod_unfold)
  have per_row:
    "length (Sequence (snd (df ! k))) \<le> ?Lq" "length (SMILES (snd (df ! k))) \<le> ?Ls"
    "set (SMILES (snd (df ! k))) \<subseteq> set ?cs"
    if "k < length df" for k
  proof -
    from that have mem: "df ! k \<in> set df" by simp
    then have "length (Sequence (snd (df ! k))) \<in> set (map (\<lambda>(i, r). length (Sequence r)) df)"
      by (force simp: case_prod_unfold)
    then show "length (Sequence (snd (df ! k))) \<le> ?Lq" by (intro Max_ge) simp_all
    from mem have "length (SMILES (snd (df ! k))) \<in> set (map (\<lambda>(i, r). length (SMILES r)) df)"
      by (force simp: case_prod_unfold)
    then show "length (SMILES (snd (df ! k))) \<le> ?Ls" by (intro Max_ge) simp_all
    from mem show "set (SMILES (snd (df ! k))) \<subseteq> set ?cs"
      unfolding cs(2) by (force simp: case_prod_unfold)
  qed
  have vocab: "\<exists>i < length ?cs. ?cs ! i = c \<and> get0 (enumerate_dict ?cs) c = i + 1"
    if "c \<in> set ?cs" for c
  proof -
    from that obtain i where "i < length ?cs" "?cs ! i = c"
      by (auto simp: in_set_conv_nth)
    with get0_enumerate_dict_nth [OF cs(1), of i] show ?thesis by auto
  qed
  define f where "f = (\<lambda>r :: raw_row. \<lparr>Drug = Drug r, Protein = Protein r, SMILES = SMILES r,
             Sequence = Sequence r, Affinity = Affinity r,
             Encoded_Sequence = encode_string aa_to_num ?Lq (Sequence r),
             Encoded_SMILES = encode_string (enumerate_dict ?cs) ?Ls (SMILES r)\<rparr>)"
  define df' where "df' = map (\<lambda>(i, r). (i, f r)) df"
  have result: "encode_sequences set_iter df = Inr df'"
    unfolding encode_sequences_nonempty [OF nonempty] df'_def f_def ..
  have len: "length df' = length df" by (simp add: df'_def)
  have row: "fst (df' ! k) = fst (df ! k) \<and>
       padded_encoding (get0 aa_to_num) ?Lq
         (Sequence (snd (df ! k))) (Encoded_Sequence (snd (df' ! k))) \<and>
       padded_encoding (get0 (enumerate_dict ?cs)) ?Ls
         (SMILES (snd (df ! k))) (Encoded_SMILES (snd (df' ! k))) \<and>
       (\<forall>c \<in> set (SMILES (snd (df ! k))).
          \<exists>i < length ?cs. ?cs ! i = c \<and> get0 (enumerate_dict ?cs) c = i + 1)"
    if k: "k < length df" for k
  proof -
    have "fst (df' ! k) = fst (df ! k)" "snd (df' ! k) = f (snd (df ! k))"
      unfolding df'_def using rows [OF k] by simp_all
    moreover have "Encoded_Sequence (f r) = encode_string aa_to_num ?Lq (Sequence r)"
      "Encoded_SMILES (f r) = encode_string (enumerate_dict ?cs) ?Ls (SMILES r)" for r
      by (simp_all add: f_def)
    ultimately show ?thesis
      using per_row [OF k] vocab encode_string_padded by (simp add: subset_iff)
  qed
  from result len aa unknown row show ?thesis by blast
qed

theorem encode_sequences_padded_witness:
  "set_order remdups \<and>
   (\<exists>df'. encode_sequences remdups
      [(0, \<lparr>Drug = ''d1'', Protein = ''p1'', SMILES = ''CCO'', Sequence = ''AXC'', Affinity = 5\<rparr>),
       (1, \<lparr>Drug = ''d2'', Protein = ''p2'', SMILES = ''N'', Sequence = ''Y'', Affinity = 7\<rparr>)]
      = Inr df' \<and> length df' = 2)"
proof -
  have order: "set_order remdups" by (simp add: set_order_def)
  show ?thesis
    using order encode_sequences_padded [OF order,
      of "[(0, \<lparr>Drug = ''d1'', Protein = ''p1'', SMILES = ''CCO'', Sequence = ''AXC'', Affinity = 5\<rparr>),
           (1, \<lparr>Drug = ''d2'', Protein = ''p2'', SMILES = ''N'', Sequence = ''Y'', Affinity = 7\<rparr>)]"]
    by auto
qed




section \<open>Rounding error\<close>

lemma round_half_even_close: "\<bar>of_int (round_half_even x) - x\<bar> \<le> 1 / 2"
proof -
  have "of_int \<lfloor>x\<rfloor> \<le> x" "x < of_int \<lfloor>x\<rfloor> + 1" by linarith+
  then show ?thesis
    unfolding round_half_even_def Let_def by (auto split: if_splits)
qed

lemma log2_floor_ge1:
  assumes "1 \<le> x"
  shows "2 powi (log2_floor x) \<le> x \<and> x < 2 powi (log2_floor x + 1)"
proof -
  define n where "n = nat \<lfloor>x\<rfloor>"
  have "1 \<le> \<lfloor>x\<rfloor>" using assms by linarith
  then have n: "0 < n" "of_nat n \<le> x" "x < of_nat n + 1"
    unfolding n_def by (simp, simp, linarith)
  define g where "g = floorlog 2 n"
  have b: "2 ^ (g - 1) \<le> n" "n < 2 ^ g"
    using floorlog_bounds [of n 2] n(1) by (simp_all add: g_def)
  have g: "0 < g" using n(1) by (simp add: g_def floorlog_def)
  have e: "log2_floor x = int g - 1"
    using assms by (simp add: log2_floor_def g_def n_def)
  have "(of_nat (2 ^ (g - 1)) :: rat) \<le> of_nat n"
    using b(1) by (simp only: of_nat_le_iff)
  then have lo: "(2::rat) ^ (g - 1) \<le> of_nat n" by simp
  have "Suc n \<le> 2 ^ g" using b(2) by simp
  then have "(of_nat (Suc n) :: rat) \<le> of_nat (2 ^ g)" by (simp only: of_nat_le_iff)
  then have hi: "(of_nat n :: rat) + 1 \<le> 2 ^ g" by simp
  have p1: "(2::rat) powi (int g - 1) = 2 ^ (g - 1)"
    using g by (simp add: power_int_def nat_diff_distrib')
  have p2: "(2::rat) powi (int g - 1 + 1) = 2 ^ g"
    by (simp add: power_int_def)
  show ?thesis using n lo hi unfolding e p1 p2 by linarith
qed

lemma log2_floor_lt1:
  assumes "0 < x" "x < 1"
  shows "2 powi (log2_floor x) \<le> x \<and> x < 2 powi (log2_floor x + 1)"
proof -
  define y where "y = 1 / x"
  have y: "1 < y" using assms by (simp add: y_def)
  define m where "m = nat (\<lceil>y\<rceil> - 1)"
  have "2 \<le> \<lceil>y\<rceil>" using y by linarith
  then have m0: "0 < m" and mi: "int m = \<lceil>y\<rceil> - 1"
    unfolding m_def by simp_all
  have "(of_int (int m) :: rat) < y" "y \<le> of_int (int m) + 1"
    unfolding mi by linarith+
  then have m: "0 < m" "of_nat m < y" "y \<le> of_nat m + 1"
    using m0 by simp_all
  define g where "g = floorlog 2 m"
  have b: "2 ^ (g - 1) \<le> m" "m < 2 ^ g"
    using floorlog_bounds [of m 2] m(1) by (simp_all add: g_def)
  have g: "0 < g" using m(1) by (simp add: g_def floorlog_def)
  have e: "log2_floor x = - int g"
    using assms by (simp add: log2_floor_def g_def m_def y_def)
  have "(of_nat (2 ^ (g - 1)) :: rat) \<le> of_nat m"
    using b(1) by (simp only: of_nat_le_iff)
  then have lo: "(2::rat) ^ (g - 1) \<le> of_nat m" by simp
  have "Suc m \<le> 2 ^ g" using b(2) by simp
  then have "(of_nat (Suc m) :: rat) \<le> of_nat (2 ^ g)" by (simp only: of_nat_le_iff)
  then have hi: "(of_nat m :: rat) + 1 \<le> 2 ^ g" by simp
  have p1: "(2::rat) powi (- int g) = 1 / 2 ^ g"
    by (simp add: power_int_def field_simps)
  obtain g' where g': "g = Suc g'" using g by (cases g) simp_all
  have p2: "(2::rat) powi (- int g + 1) = 1 / 2 ^ (g - 1)"
    unfolding g' by (simp add: power_int_def field_simps)
  have "y \<le> 2 ^ g" using m(3) hi by linarith
  then have c1: "1 / 2 ^ g \<le> x"
    using assms(1) by (simp add: y_def field_simps)
  have "2 ^ (g - 1) < y" using m(2) lo by linarith
  then have c2: "x < 1 / 2 ^ (g - 1)"
    using assms(1) by (simp add: y_def field_simps)
  show ?thesis unfolding e p1 p2 using c1 c2 by simp
qed

lemma log2_floor_bounds:
  "0 < x \<Longrightarrow> 2 powi (log2_floor x) \<le> x \<and> x < 2 powi (log2_floor x + 1)"
  using log2_floor_ge1 [of x] log2_floor_lt1 [of x] by (cases "1 \<le> x") simp_all

lemma round_double_error:
  assumes "0 < x"
  shows "\<bar>round_double x - x\<bar> \<le> x / 2 ^ 53"
proof -
  define u :: rat where "u = 2 powi (log2_floor \<bar>x\<bar> - 52)"
  have u: "0 < u" by (simp add: u_def)
  have "u = 2 powi (log2_floor x) / 2 ^ 52"
    using assms by (simp add: u_def power_int_diff)
  then have ux: "u \<le> x / 2 ^ 52"
    using log2_floor_bounds [OF assms] by (simp add: divide_right_mono)
  have rd: "round_double x = of_int (round_half_even (x / u)) * u"
    using assms by (simp add: round_double_def u_def Let_def)
  have "round_double x - x = (of_int (round_half_even (x / u)) - x / u) * u"
    using u unfolding rd by (simp add: left_diff_distrib)
  then have "\<bar>round_double x - x\<bar> = \<bar>of_int (round_half_even (x / u)) - x / u\<bar> * u"
    using u by (simp add: abs_mult)
  also have "\<dots> \<le> (1 / 2) * u"
    using round_half_even_close [of "x / u"] u by (intro mult_right_mono) simp_all
  also have "\<dots> \<le> x / 2 ^ 53" using ux by simp
  finally show ?thesis .
qed

lemma round_double_between:
  assumes "0 < a" "a \<le> x" "x \<le> b"
  shows "a * (1 - 1 / 2 ^ 53) \<le> round_double x \<and> round_double x \<le> b * (1 + 1 / 2 ^ 53)"
proof -
  have x: "0 < x" using assms by simp
  define d where "d = x / 2 ^ 53"
  define lo where "lo = x * (1 - 1 / 2 ^ 53)"
  define hi where "hi = x * (1 + 1 / 2 ^ 53)"
  have "lo = x - d" "hi = x + d"
    by (simp_all add: lo_def hi_def d_def algebra_simps)
  moreover have "\<bar>round_double x - x\<bar> \<le> d"
    unfolding d_def by (rule round_double_error [OF x])
  ultimately have "lo \<le> round_double x" "round_double x \<le> hi"
    by linarith+
  then have "x * (1 - 1 / 2 ^ 53) \<le> round_double x" "round_double x \<le> x * (1 + 1 / 2 ^ 53)"
    by (simp_all add: lo_def hi_def)
  moreover have "a * (1 - 1 / 2 ^ 53) \<le> x * (1 - 1 / 2 ^ 53)"
    using assms(2) by (intro mult_right_mono) simp_all
  moreover have "x * (1 + 1 / 2 ^ 53) \<le> b * (1 + 1 / 2 ^ 53)"
    using assms(3) by (intro mult_right_mono) simp_all
  ultimately show ?thesis by linarith
qed

lemma float_of_int_between:
  assumes "0 < n"
  shows "of_nat n * (1 - 1 / 2 ^ 53) \<le> float_of_int n \<and>
         float_of_int n \<le> of_nat n * (1 + 1 / 2 ^ 53)"
  unfolding float_of_int_def using assms by (intro round_double_between) simp_all

lemma float_mul_int_between:
  assumes "0 < a" "a \<le> x" "x \<le> b" "0 < n"
  shows "a * of_nat n * (1 - 1 / 2 ^ 53) * (1 - 1 / 2 ^ 53) \<le> float_mul_int x n \<and>
         float_mul_int x n \<le> b * of_nat n * (1 + 1 / 2 ^ 53) * (1 + 1 / 2 ^ 53)"
proof -
  let ?lo = "of_nat n * (1 - 1 / 2 ^ 53) :: rat" and ?hi = "of_nat n * (1 + 1 / 2 ^ 53) :: rat"
  have f: "?lo \<le> float_of_int n" "float_of_int n \<le> ?hi"
    using float_of_int_between [OF assms(4)] by simp_all
  have lo: "0 < ?lo" using assms(4) by simp
  have "a * ?lo \<le> x * float_of_int n"
    using assms f lo by (intro mult_mono) simp_all
  moreover have "x * float_of_int n \<le> b * ?hi"
    using assms f lo by (intro mult_mono) simp_all
  moreover have "0 < a * ?lo" using assms(1) lo by (rule mult_pos_pos)
  ultimately show ?thesis
    unfolding float_mul_int_def
    using round_double_between [of "a * ?lo" "x * float_of_int n" "b * ?hi"]
    by (simp add: mult.assoc)
qed

lemma test_size_between:
  assumes "0 < n"
  shows "42 / of_nat n * (1 - 1 / 2 ^ 53) \<le> round_double (42 / of_nat n) \<and>
         round_double (42 / of_nat n) \<le> 42 / of_nat n * (1 + 1 / 2 ^ 53)"
  using assms by (intro round_double_between) simp_all

lemma n_test_42_43:
  assumes "0 < n"
  shows "\<lceil>float_mul_int (round_double (42 / of_nat n)) n\<rceil> \<in> {42, 43}"
proof -
  let ?q = "42 / of_nat n :: rat"
  have q: "0 < ?q * (1 - 1 / 2 ^ 53)" using assms by simp
  have "?q * (1 - 1 / 2 ^ 53) * of_nat n * (1 - 1 / 2 ^ 53) * (1 - 1 / 2 ^ 53) \<le>
          float_mul_int (round_double ?q) n \<and>
        float_mul_int (round_double ?q) n \<le>
          ?q * (1 + 1 / 2 ^ 53) * of_nat n * (1 + 1 / 2 ^ 53) * (1 + 1 / 2 ^ 53)"
    using test_size_between [OF assms] assms
    by (intro float_mul_int_between q) simp_all
  moreover have "?q * (1 - 1 / 2 ^ 53) * of_nat n * (1 - 1 / 2 ^ 53) * (1 - 1 / 2 ^ 53)
      = 42 * ((1 - 1 / 2 ^ 53) * (1 - 1 / 2 ^ 53) * (1 - 1 / 2 ^ 53))"
    using assms by simp
  moreover have "?q * (1 + 1 / 2 ^ 53) * of_nat n * (1 + 1 / 2 ^ 53) * (1 + 1 / 2 ^ 53)
      = 42 * ((1 + 1 / 2 ^ 53) * (1 + 1 / 2 ^ 53) * (1 + 1 / 2 ^ 53))"
    using assms by simp
  ultimately have b: "41 < float_mul_int (round_double ?q) n"
    "float_mul_int (round_double ?q) n \<le> 43"
    by simp_all
  show ?thesis
  proof (cases "float_mul_int (round_double ?q) n \<le> 42")
    case True
    with b(1) have "\<lceil>float_mul_int (round_double ?q) n\<rceil> = 42"
      by (intro ceiling_unique) simp_all
    then show ?thesis by simp
  next
    case False
    with b(2) have "\<lceil>float_mul_int (round_double ?q) n\<rceil> = 43"
      by (intro ceiling_unique) simp_all
    then show ?thesis by simp
  qed
qed

section \<open>Sizes of the partitions\<close>

lemma test_size_valid:
  assumes "43 \<le> n"
  shows "0 < round_double (42 / of_nat n) \<and> round_double (42 / of_nat n) < 1"
proof -
  have n: "0 < n" using assms by simp
  define q :: rat where "q = 42 / of_nat n"
  have "(43::rat) \<le> of_nat n" using assms by (metis of_nat_le_iff of_nat_numeral)
  then have q: "0 < q" "q \<le> 42 / 43"
    using n by (simp_all add: q_def field_simps)
  have "q * (1 - 1 / 2 ^ 53) \<le> round_double q" "round_double q \<le> q * (1 + 1 / 2 ^ 53)"
    using test_size_between [OF n] by (simp_all add: q_def)
  moreover have "0 < q * (1 - 1 / 2 ^ 53)" using q(1) by simp
  moreover have "q * (1 + 1 / 2 ^ 53) \<le> 42 / 43 * (1 + 1 / 2 ^ 53)"
    using q(2) by (intro mult_right_mono) simp_all
  moreover have "(42::rat) / 43 * (1 + 1 / 2 ^ 53) < 1" by simp
  ultimately show ?thesis unfolding q_def by linarith
qed

lemma n_test_43: "\<lceil>float_mul_int (round_double (42 / of_nat 43)) 43\<rceil> = 42"
  by code_simp

lemma validate_shuffle_split_42:
  assumes "43 \<le> n"
  shows "\<exists>t \<in> {42, 43}. t < int n \<and>
     validate_shuffle_split n (round_double (42 / of_nat n)) = Inr (int n - t, t)"
proof -
  define t where "t = \<lceil>float_mul_int (round_double (42 / of_nat n)) n\<rceil>"
  have t: "t \<in> {42, 43}"
    unfolding t_def using assms by (intro n_test_42_43) simp
  have lt: "t < int n"
  proof (cases "n = 43")
    case True
    then show ?thesis unfolding t_def using n_test_43 by simp
  next
    case False
    with assms t show ?thesis by auto
  qed
  have "validate_shuffle_split n (round_double (42 / of_nat n)) = Inr (int n - t, t)"
    using test_size_valid [OF assms] lt
    by (simp add: validate_shuffle_split_def Let_def t_def [symmetric])
  with t lt show ?thesis by blast
qed

lemma sample_size_between:
  assumes "0 < k"
  shows "3152519739159347 / 4503599627370496 * of_nat k * (1 - 1 / 2 ^ 53) * (1 - 1 / 2 ^ 53) - 1 / 2
           \<le> (of_int (sample_size k) :: rat) \<and>
         (of_int (sample_size k) :: rat)
           \<le> 3152519739159347 / 4503599627370496 * of_nat k * (1 + 1 / 2 ^ 53) * (1 + 1 / 2 ^ 53) + 1 / 2"
proof -
  have c: "round_double (7 / 10) = 3152519739159347 / 4503599627370496"
    by code_simp
  define p where "p = float_mul_int (round_double (7 / 10)) k"
  have "3152519739159347 / 4503599627370496 * of_nat k * (1 - 1 / 2 ^ 53) * (1 - 1 / 2 ^ 53) \<le> p \<and>
      p \<le> 3152519739159347 / 4503599627370496 * of_nat k * (1 + 1 / 2 ^ 53) * (1 + 1 / 2 ^ 53)"
    unfolding p_def c using assms by (intro float_mul_int_between) simp_all
  moreover have "\<bar>of_int (sample_size k) - p\<bar> \<le> 1 / 2"
    unfolding sample_size_def py_round_def p_def by (rule round_half_even_close)
  ultimately show ?thesis by linarith
qed

lemma sample_size_ge1:
  assumes "0 < k"
  shows "1 \<le> sample_size k"
proof -
  define K :: rat where "K = of_nat k"
  have K: "1 \<le> K" using assms by (simp add: K_def)
  have "3152519739159347 / 4503599627370496 * K * (1 - 1 / 2 ^ 53) * (1 - 1 / 2 ^ 53) - 1 / 2
           \<le> of_int (sample_size k)"
    using sample_size_between [OF assms] by (simp add: K_def)
  moreover have "3152519739159347 / 4503599627370496 * K * (1 - 1 / 2 ^ 53) * (1 - 1 / 2 ^ 53)
      = K * (3152519739159347 / 4503599627370496 * (1 - 1 / 2 ^ 53) * (1 - 1 / 2 ^ 53))"
    by simp
  moreover have "(69 / 100 :: rat) \<le> 3152519739159347 / 4503599627370496 * (1 - 1 / 2 ^ 53) * (1 - 1 / 2 ^ 53)"
    by simp
  then have "K * (69 / 100) \<le> K * (3152519739159347 / 4503599627370496 * (1 - 1 / 2 ^ 53) * (1 - 1 / 2 ^ 53))"
    using K by (intro mult_left_mono) simp_all
  ultimately have "(0::rat) < of_int (sample_size k)" using K by linarith
  then show ?thesis by simp
qed

lemma sample_size_lt:
  assumes "0 < k"
  shows "of_int (sample_size k) \<le> (of_nat k :: rat) * (71 / 100) + 1 / 2"
proof -
  define K :: rat where "K = of_nat k"
  have K: "1 \<le> K" using assms by (simp add: K_def)
  have "of_int (sample_size k)
           \<le> 3152519739159347 / 4503599627370496 * K * (1 + 1 / 2 ^ 53) * (1 + 1 / 2 ^ 53) + 1 / 2"
    using sample_size_between [OF assms] by (simp add: K_def)
  moreover have "3152519739159347 / 4503599627370496 * K * (1 + 1 / 2 ^ 53) * (1 + 1 / 2 ^ 53)
      = K * (3152519739159347 / 4503599627370496 * (1 + 1 / 2 ^ 53) * (1 + 1 / 2 ^ 53))"
    by simp
  moreover have "3152519739159347 / 4503599627370496 * (1 + 1 / 2 ^ 53) * (1 + 1 / 2 ^ 53) \<le> (71 / 100 :: rat)"
    by simp
  then have "K * (3152519739159347 / 4503599627370496 * (1 + 1 / 2 ^ 53) * (1 + 1 / 2 ^ 53)) \<le> K * (71 / 100)"
    using K by (intro mult_left_mono) simp_all
  ultimately show ?thesis unfolding K_def by linarith
qed

lemma sample_size_one: "sample_size 1 = 1"
  by code_simp

lemma sample_size_less:
  assumes "2 \<le> k"
  shows "sample_size k < int k"
proof -
  define K :: rat where "K = of_nat k"
  have "(of_nat 2 :: rat) \<le> of_nat k" using assms by (simp only: of_nat_le_iff)
  then have K: "2 \<le> K" by (simp add: K_def)
  have "of_int (sample_size k) \<le> K * (71 / 100) + 1 / 2"
    using sample_size_lt [of k] assms by (simp add: K_def)
  then have "of_int (sample_size k) < K" using K by linarith
  then have "(of_int (sample_size k) :: rat) < of_int (int k)" by (simp add: K_def)
  then show ?thesis by (simp only: of_int_less_iff)
qed

lemma sample_size_seventy:
  assumes "0 < k" "k < 2 ^ 48"
  shows "\<bar>10 * sample_size k - 7 * int k\<bar> \<le> 5"
proof -
  define K :: rat where "K = of_nat k"
  have "(of_nat k :: rat) < of_nat (2 ^ 48)" using assms(2) by (simp only: of_nat_less_iff)
  then have K: "0 < K" "K < 2 ^ 48" using assms(1) by (simp_all add: K_def)
  define s :: rat where "s = of_int (sample_size k)"
  have b: "3152519739159347 / 4503599627370496 * K * (1 - 1 / 2 ^ 53) * (1 - 1 / 2 ^ 53) - 1 / 2 \<le> s"
    "s \<le> 3152519739159347 / 4503599627370496 * K * (1 + 1 / 2 ^ 53) * (1 + 1 / 2 ^ 53) + 1 / 2"
    using sample_size_between [OF assms(1)] by (simp_all add: K_def s_def)
  have "3152519739159347 / 4503599627370496 * K * (1 - 1 / 2 ^ 53) * (1 - 1 / 2 ^ 53)
      = 7 / 10 * K - K * (7 / 10 - 3152519739159347 / 4503599627370496 * (1 - 1 / 2 ^ 53) * (1 - 1 / 2 ^ 53))"
    by (simp add: algebra_simps)
  moreover have "K * (7 / 10 - 3152519739159347 / 4503599627370496 * (1 - 1 / 2 ^ 53) * (1 - 1 / 2 ^ 53))
      \<le> 2 ^ 48 * (7 / 10 - 3152519739159347 / 4503599627370496 * (1 - 1 / 2 ^ 53) * (1 - 1 / 2 ^ 53))"
    using K by (intro mult_right_mono) simp_all
  moreover have "(2 ^ 48 * (7 / 10 - 3152519739159347 / 4503599627370496 * (1 - 1 / 2 ^ 53) * (1 - 1 / 2 ^ 53)) :: rat) < 1 / 10"
    by simp
  ultimately have lo: "7 / 10 * K - 6 / 10 < s" using b(1) by linarith
  have "3152519739159347 / 4503599627370496 * K * (1 + 1 / 2 ^ 53) * (1 + 1 / 2 ^ 53)
      = 7 / 10 * K + K * (3152519739159347 / 4503599627370496 * (1 + 1 / 2 ^ 53) * (1 + 1 / 2 ^ 53) - 7 / 10)"
    by (simp add: algebra_simps)
  moreover have "K * (3152519739159347 / 4503599627370496 * (1 + 1 / 2 ^ 53) * (1 + 1 / 2 ^ 53) - 7 / 10)
      \<le> 2 ^ 48 * (3152519739159347 / 4503599627370496 * (1 + 1 / 2 ^ 53) * (1 + 1 / 2 ^ 53) - 7 / 10)"
    using K by (intro mult_right_mono) simp_all
  moreover have "(2 ^ 48 * (3152519739159347 / 4503599627370496 * (1 + 1 / 2 ^ 53) * (1 + 1 / 2 ^ 53) - 7 / 10) :: rat) < 1 / 10"
    by simp
  ultimately have hi: "s < 7 / 10 * K + 6 / 10" using b(2) by linarith
  have "(of_int (10 * sample_size k - 7 * int k) :: rat) = 10 * s - 7 * K"
    by (simp add: s_def K_def)
  moreover have "10 * s - 7 * K < 6" "- 6 < 10 * s - 7 * K" using lo hi by linarith+
  ultimately have "(of_int (10 * sample_size k - 7 * int k) :: rat) < of_int 6"
    "(of_int (- 6) :: rat) < of_int (10 * sample_size k - 7 * int k)"
    by simp_all
  then have "10 * sample_size k - 7 * int k < 6" "- 6 < 10 * sample_size k - 7 * int k"
    by (simp_all only: of_int_less_iff)
  then show ?thesis by linarith
qed

section \<open>Properties of the split\<close>

lemma permutations_facts:
  assumes "permutations rng"
  shows "distinct (rng n)" "set (rng n) = {0..<n}" "length (rng n) = n"
proof -
  have m: "mset (rng n) = mset [0..<n]" using assms by (simp add: permutations_def)
  show "distinct (rng n)" using m by (metis distinct_upt mset_eq_imp_distinct_iff)
  show "set (rng n) = {0..<n}" using m by (metis mset_eq_setD set_upt)
  show "length (rng n) = n" using m by (metis length_upt minus_nat.diff_0 mset_eq_length)
qed

lemma py_slice_prefix: "0 \<le> b \<Longrightarrow> py_slice xs 0 b = take (nat b) xs"
  by (auto simp: py_slice_def Let_def min_def)

lemma py_slice_suffix:
  "0 \<le> a \<Longrightarrow> py_slice xs a (int (length xs)) = drop (nat a) xs"
  by (auto simp: py_slice_def Let_def min_def)

lemma py_slice_split: "py_slice xs 0 b @ py_slice xs b (int (length xs)) = xs"
proof (cases "0 \<le> b")
  case True
  then show ?thesis by (simp add: py_slice_prefix py_slice_suffix)
next
  case False
  then have "py_slice xs 0 b = take (nat (int (length xs) + b)) xs"
    "py_slice xs b (int (length xs)) = drop (nat (int (length xs) + b)) xs"
    by (auto simp: py_slice_def Let_def max_def add.commute)
  then show ?thesis by simp
qed

lemma unique_facts: "distinct (unique xs)" "set (unique xs) = set xs"
  by (simp_all add: unique_def)

lemma unique_distinct: "distinct xs \<Longrightarrow> unique xs = xs"
  by (simp add: unique_def distinct_remdups_id)

lemma mset_filter_partition:
  assumes "\<forall>x \<in> set xs. P x \<noteq> Q x"
  shows "mset (filter P xs) + mset (filter Q xs) = mset xs"
  using assms by (induction xs) auto

lemma mset_concat_groups:
  assumes "distinct ps"
  shows "mset (concat (map (\<lambda>p. filter (\<lambda>x. f x = p) xs) ps))
         = mset (filter (\<lambda>x. f x \<in> set ps) xs)"
  using assms
proof (induction ps)
  case Nil
  then show ?case by simp
next
  case (Cons p ps)
  have "mset (filter (\<lambda>x. f x = p) xs) + mset (filter (\<lambda>x. f x \<in> set ps) xs)
        = mset (filter (\<lambda>x. f x \<in> set (p # ps)) xs)"
    using Cons.prems by (induction xs) auto
  with Cons show ?case by simp
qed

text \<open>Indexing a list at distinct valid positions and keeping the other rows.\<close>

lemma mset_nths_rest:
  assumes "distinct (map fst g)" "distinct js" "set js \<subseteq> {0..<length g}"
  shows "mset (map (\<lambda>i. g ! i) js) + mset (df_drop g (map fst (map (\<lambda>i. g ! i) js))) = mset g"
proof -
  have dg: "distinct g" using assms(1) by (simp add: distinct_map)
  have inj: "inj_on (\<lambda>i. g ! i) (set js)"
  proof (rule inj_onI)
    fix x y assume "x \<in> set js" "y \<in> set js" "g ! x = g ! y"
    moreover from this assms(3) have "x < length g" "y < length g" by auto
    ultimately show "x = y" using dg by (simp add: nth_eq_iff_index_eq)
  qed
  have dsel: "distinct (map (\<lambda>i. g ! i) js)"
    using assms(2) inj by (simp add: distinct_map)
  have sub: "set (map (\<lambda>i. g ! i) js) \<subseteq> set g" using assms(3) by auto
  have drop: "df_drop g (map fst (map (\<lambda>i. g ! i) js)) = filter (\<lambda>x. x \<notin> set (map (\<lambda>i. g ! i) js)) g"
    unfolding df_drop_def
  proof (rule filter_cong [OF refl])
    fix x assume x: "x \<in> set g"
    have "fst x \<in> fst ` set (map (\<lambda>i. g ! i) js) \<longleftrightarrow> x \<in> set (map (\<lambda>i. g ! i) js)"
    proof
      assume "fst x \<in> fst ` set (map (\<lambda>i. g ! i) js)"
      then obtain y where y: "y \<in> set (map (\<lambda>i. g ! i) js)" "fst y = fst x"
        by (metis imageE)
      with sub have "y \<in> set g" by auto
      with x y(2) assms(1) have "y = x" by (metis distinct_map inj_onD)
      with y(1) show "x \<in> set (map (\<lambda>i. g ! i) js)" by simp
    qed auto
    then show "(case x of (i, r) \<Rightarrow> i \<notin> set (map fst (map (\<lambda>i. g ! i) js))) = (x \<notin> set (map (\<lambda>i. g ! i) js))"
      by (cases x) auto
  qed
  have "mset (map (\<lambda>i. g ! i) js) = mset (filter (\<lambda>x. x \<in> set (map (\<lambda>i. g ! i) js)) g)"
  proof -
    have "set (map (\<lambda>i. g ! i) js) = set (filter (\<lambda>x. x \<in> set (map (\<lambda>i. g ! i) js)) g)"
      using sub by auto
    moreover have "distinct (filter (\<lambda>x. x \<in> set (map (\<lambda>i. g ! i) js)) g)"
      using dg by simp
    ultimately show ?thesis
      using dsel set_eq_iff_mset_eq_distinct by blast
  qed
  moreover have "mset (filter (\<lambda>x. x \<in> set (map (\<lambda>i. g ! i) js)) g) + mset (filter (\<lambda>x. x \<notin> set (map (\<lambda>i. g ! i) js)) g) = mset g"
    by (intro mset_filter_partition) simp
  ultimately show ?thesis unfolding drop by simp
qed

lemma nth_permuted:
  assumes "distinct arr" "distinct perm" "set perm = {0..<length arr}"
  shows "distinct (map (\<lambda>i. arr ! i) perm)" "set (map (\<lambda>i. arr ! i) perm) = set arr"
proof -
  have inj: "inj_on (\<lambda>i. arr ! i) (set perm)"
  proof (rule inj_onI)
    fix x y assume "x \<in> set perm" "y \<in> set perm" "arr ! x = arr ! y"
    moreover from this assms(3) have "x < length arr" "y < length arr" by auto
    ultimately show "x = y" using assms(1) by (simp add: nth_eq_iff_index_eq)
  qed
  show "distinct (map (\<lambda>i. arr ! i) perm)"
    using assms(2) inj by (simp add: distinct_map)
  show "set (map (\<lambda>i. arr ! i) perm) = set arr"
    using assms(3) by (auto simp: in_set_conv_nth)
qed

lemma permuted_split:
  assumes "distinct arr" "distinct perm" "set perm = {0..<length arr}"
  shows "set (map (\<lambda>i. arr ! i) (take m perm)) \<inter> set (map (\<lambda>i. arr ! i) (drop m perm)) = {}"
    and "set (map (\<lambda>i. arr ! i) (take m perm)) \<union> set (map (\<lambda>i. arr ! i) (drop m perm)) = set arr"
    and "distinct (map (\<lambda>i. arr ! i) (take m perm))"
proof -
  have d: "distinct (map (\<lambda>i. arr ! i) (take m perm) @ map (\<lambda>i. arr ! i) (drop m perm))"
    using nth_permuted(1) [OF assms] by (simp only: map_append [symmetric] append_take_drop_id)
  then show "set (map (\<lambda>i. arr ! i) (take m perm)) \<inter> set (map (\<lambda>i. arr ! i) (drop m perm)) = {}"
    and "distinct (map (\<lambda>i. arr ! i) (take m perm))"
    by (simp_all only: distinct_append)
  have "set (map (\<lambda>i. arr ! i) (take m perm) @ map (\<lambda>i. arr ! i) (drop m perm)) = set arr"
    using nth_permuted(2) [OF assms] by (simp only: map_append [symmetric] append_take_drop_id)
  then show "set (map (\<lambda>i. arr ! i) (take m perm)) \<union> set (map (\<lambda>i. arr ! i) (drop m perm)) = set arr"
    by (simp only: set_append)
qed

lemma protein_ids_filter:
  assumes "S \<subseteq> protein_ids df"
  shows "protein_ids (filter (\<lambda>(i, r). Protein r \<in> S) df) = S"
  using assms by (force simp: protein_ids_def)

lemma card_protein_ids:
  "card (protein_ids df) = length (unique (map (\<lambda>(i, r). Protein r) df))"
  by (metis distinct_card protein_ids_def unique_facts)

text \<open>The first branch, for at least 43 distinct proteins.\<close>

lemma new_proteins_result:
  fixes df :: "('a raw_row_scheme) frame"
  assumes rng: "permutations rng"
    and n: "43 \<le> length (unique (map (\<lambda>(i, r). Protein r) df))"
  defines "proteins \<equiv> unique (map (\<lambda>(i, r). Protein r) df)"
  defines "t \<equiv> nat \<lceil>float_mul_int (round_double (42 / of_nat (length proteins))) (length proteins)\<rceil>"
  shows "train_test_split_proteins rng df True =
     Inr (filter (\<lambda>(i, r). Protein r \<in> set (map (\<lambda>i. proteins ! i) (drop t (rng (length proteins))))) df,
          filter (\<lambda>(i, r). Protein r \<in> set (map (\<lambda>i. proteins ! i) (take t (rng (length proteins))))) df)"
    and "t \<in> {42, 43}" and "t < length proteins"
proof -
  let ?n = "length proteins"
  obtain t' where t': "t' \<in> {42, 43}" "t' < int ?n"
    "validate_shuffle_split ?n (round_double (42 / of_nat ?n)) = Inr (int ?n - t', t')"
    using validate_shuffle_split_42 [of ?n] n unfolding proteins_def by blast
  have tt: "t' = \<lceil>float_mul_int (round_double (42 / of_nat ?n)) ?n\<rceil>"
    using t'(3) by (auto simp: validate_shuffle_split_def Let_def split: if_splits)
  have t: "t = nat t'" "int t = t'" using t'(1) unfolding t_def tt [symmetric] by auto
  show "t \<in> {42, 43}" using t'(1) t(1) by auto
  show "t < ?n" using t'(2) t(2) by simp
  have len: "length (rng ?n) = ?n" by (rule permutations_facts(3) [OF rng])
  have s1: "py_slice (rng ?n) 0 t' = take t (rng ?n)"
    using t'(1) t(1) by (subst py_slice_prefix) auto
  have "py_slice (rng ?n) t' (int (length (rng ?n))) = drop t (rng ?n)"
    using t'(1) t(1) by (subst py_slice_suffix) auto
  then have s2: "py_slice (rng ?n) t' (int ?n) = drop t (rng ?n)"
    by (simp only: len)
  have "sk_train_test_split rng proteins (round_double (42 / of_nat ?n)) =
      Inr (map (\<lambda>i. proteins ! i) (drop t (rng ?n)), map (\<lambda>i. proteins ! i) (take t (rng ?n)))"
    unfolding sk_train_test_split_def t'(3) by (simp add: s1 s2 Let_def)
  moreover have "int_truediv 42 ?n = Inr (round_double (42 / of_nat ?n))"
    using n by (auto simp: int_truediv_def proteins_def)
  ultimately show "train_test_split_proteins rng df True =
     Inr (filter (\<lambda>(i, r). Protein r \<in> set (map (\<lambda>i. proteins ! i) (drop t (rng ?n)))) df,
          filter (\<lambda>(i, r). Protein r \<in> set (map (\<lambda>i. proteins ! i) (take t (rng ?n)))) df)"
    unfolding train_test_split_proteins_def proteins_def [symmetric] by (simp add: Let_def)
qed

lemma new_proteins_card:
  fixes df :: "('a raw_row_scheme) frame"
  assumes rng: "permutations rng"
    and n: "43 \<le> length (unique (map (\<lambda>(i, r). Protein r) df))"
  shows "\<exists>train test. train_test_split_proteins rng df True = Inr (train, test) \<and>
     protein_ids train \<inter> protein_ids test = {} \<and>
     int (card (protein_ids test)) =
       \<lceil>float_mul_int (round_double (42 / of_nat (card (protein_ids df)))) (card (protein_ids df))\<rceil> \<and>
     card (protein_ids test) \<in> {42, 43}"
proof -
  define proteins where "proteins = unique (map (\<lambda>(i, r). Protein r) df)"
  define t where "t = nat \<lceil>float_mul_int (round_double (42 / of_nat (length proteins))) (length proteins)\<rceil>"
  define perm where "perm = rng (length proteins)"
  note res = new_proteins_result [OF rng n, folded proteins_def, folded t_def, folded perm_def]
  have p: "distinct proteins" "set proteins = protein_ids df"
    by (simp_all add: proteins_def unique_facts protein_ids_def)
  have perm: "distinct perm" "set perm = {0..<length proteins}" "length perm = length proteins"
    unfolding perm_def using permutations_facts [OF rng] by simp_all
  note sp = permuted_split [OF p(1) perm(1) perm(2), of t]
  have sub: "set (map (\<lambda>i. proteins ! i) (take t perm)) \<subseteq> protein_ids df"
    "set (map (\<lambda>i. proteins ! i) (drop t perm)) \<subseteq> protein_ids df"
    using sp(2) p(2) by blast+
  have ids: "protein_ids (filter (\<lambda>(i, r). Protein r \<in> set (map (\<lambda>i. proteins ! i) (take t perm))) df)
      = set (map (\<lambda>i. proteins ! i) (take t perm))"
    "protein_ids (filter (\<lambda>(i, r). Protein r \<in> set (map (\<lambda>i. proteins ! i) (drop t perm))) df)
      = set (map (\<lambda>i. proteins ! i) (drop t perm))"
    using sub by (simp_all only: protein_ids_filter)
  have "card (set (map (\<lambda>i. proteins ! i) (take t perm))) = length (map (\<lambda>i. proteins ! i) (take t perm))"
    using sp(3) by (rule distinct_card)
  also have "\<dots> = t" using res(3) perm(3) by simp
  finally have card: "card (set (map (\<lambda>i. proteins ! i) (take t perm))) = t" .
  have cn: "card (protein_ids df) = length proteins"
    by (simp add: card_protein_ids proteins_def)
  define c where "c = \<lceil>float_mul_int (round_double (42 / of_nat (length proteins))) (length proteins)\<rceil>"
  have "0 < nat c" using res(2) unfolding t_def c_def [symmetric] by auto
  then have "int (nat c) = c" by simp
  then have ti: "int t = \<lceil>float_mul_int (round_double (42 / of_nat (length proteins))) (length proteins)\<rceil>"
    unfolding t_def c_def [symmetric] .
  define train where
    "train = filter (\<lambda>(i, r). Protein r \<in> set (map (\<lambda>i. proteins ! i) (drop t perm))) df"
  define test where
    "test = filter (\<lambda>(i, r). Protein r \<in> set (map (\<lambda>i. proteins ! i) (take t perm))) df"
  have "train_test_split_proteins rng df True = Inr (train, test)"
    unfolding train_def test_def by (rule res(1))
  moreover have "protein_ids train \<inter> protein_ids test = {}"
    unfolding train_def test_def ids using sp(1) by blast
  moreover have ct: "card (protein_ids test) = t"
    unfolding test_def ids by (rule card)
  moreover have "int (card (protein_ids test)) =
       \<lceil>float_mul_int (round_double (42 / of_nat (card (protein_ids df)))) (card (protein_ids df))\<rceil>"
    unfolding ct cn by (rule ti)
  moreover have "card (protein_ids test) \<in> {42, 43}"
    unfolding ct by (rule res(2))
  ultimately show ?thesis by blast
qed

section \<open>The first branch: new proteins\<close>

lemma permutations_in_order: "permutations in_order"
  by (simp add: permutations_def in_order_def)

lemma card_protein_ids_frame75: "card (protein_ids frame75) = 75"
proof -
  have "map (\<lambda>(i, r). Protein r) frame75 = map (\<lambda>i. replicate (Suc i) CHR ''p'') [0..<75]"
    by (simp add: frame75_def comp_def)
  moreover have "distinct (map (\<lambda>i. replicate (Suc i) CHR ''p'') [0..<75])"
    unfolding distinct_map
  proof
    show "inj_on (\<lambda>i. replicate (Suc i) CHR ''p'') (set [0..<75])"
      by (rule inj_onI) (metis length_replicate nat.inject)
  qed simp
  ultimately show ?thesis
    by (simp add: card_protein_ids unique_distinct)
qed

lemma n_test_75: "\<lceil>float_mul_int (round_double (42 / 75)) 75\<rceil> = 43"
  by code_simp

text \<open>
  Claim C2. The call \<^verbatim>\<open>train_test_split(proteins, test_size=42 / len(proteins))\<close> is
  written to hold out 42 proteins, and the claim says it holds out exactly 42. On a
  frame of 75 distinct proteins the code holds out 43: the float \<open>42 / 75\<close> times 75 is
  just above 42, and scikit-learn takes the ceiling of that product.
\<close>

theorem new_proteins_43_counterexample:
  "42 < card (protein_ids frame75) \<and>
   \<not> isl (train_test_split_proteins in_order frame75 True) \<and>
   card (protein_ids (snd (projr (train_test_split_proteins in_order frame75 True)))) = 43"
proof -
  have n: "43 \<le> length (unique (map (\<lambda>(i, r). Protein r) frame75))"
    using card_protein_ids_frame75 by (simp add: card_protein_ids)
  obtain train test where r: "train_test_split_proteins in_order frame75 True = Inr (train, test)"
    and c: "int (card (protein_ids test)) =
       \<lceil>float_mul_int (round_double (42 / of_nat (card (protein_ids frame75)))) (card (protein_ids frame75))\<rceil>"
    using new_proteins_card [OF permutations_in_order n] by blast
  have "int (card (protein_ids test)) = 43"
    using c n_test_75 by (simp add: card_protein_ids_frame75)
  then show ?thesis
    using r by (simp add: card_protein_ids_frame75)
qed

text \<open>
  What does hold of the first branch: with more than 42 distinct proteins it returns,
  no protein identifier occurs in both partitions, and the number of held-out protein
  identifiers is the ceiling of the float product \<open>(42 / n) * n\<close>, which is 42 or 43.
\<close>

theorem new_proteins_disjoint:
  fixes df :: "('a raw_row_scheme) frame"
  assumes "permutations rng" and "42 < card (protein_ids df)"
  shows "\<exists>train test. train_test_split_proteins rng df True = Inr (train, test) \<and>
     protein_ids train \<inter> protein_ids test = {} \<and>
     int (card (protein_ids test)) =
       \<lceil>float_mul_int (round_double (42 / of_nat (card (protein_ids df)))) (card (protein_ids df))\<rceil> \<and>
     card (protein_ids test) \<in> {42, 43}"
  using assms by (intro new_proteins_card) (simp_all add: card_protein_ids)

theorem new_proteins_disjoint_witness:
  "permutations in_order \<and> 42 < card (protein_ids frame75) \<and>
   (\<exists>train test. train_test_split_proteins in_order frame75 True = Inr (train, test) \<and>
     protein_ids train \<inter> protein_ids test = {} \<and>
     card (protein_ids test) \<in> {42, 43})"
proof -
  have h: "42 < card (protein_ids frame75)" by (simp add: card_protein_ids_frame75)
  show ?thesis
    using permutations_in_order h new_proteins_disjoint [OF permutations_in_order h]
    by blast
qed

section \<open>The second branch: seen proteins\<close>

lemma filter_concat_groups:
  assumes "distinct ps" "p \<in> set ps" "\<forall>q \<in> set ps. \<forall>x \<in> set (X q). f x = q"
  shows "filter (\<lambda>x. f x = p) (concat (map X ps)) = X p"
  using assms
proof (induction ps)
  case Nil
  then show ?case by simp
next
  case (Cons q ps)
  show ?case
  proof (cases "p = q")
    case True
    have "filter (\<lambda>x. f x = p) (concat (map X ps)) = []"
      using Cons.prems True by (auto simp: filter_empty_conv)
    moreover have "filter (\<lambda>x. f x = p) (X q) = X q"
      using Cons.prems True by (auto simp: filter_id_conv)
    ultimately show ?thesis using True by simp
  next
    case False
    have "filter (\<lambda>x. f x = p) (X q) = []"
      using Cons.prems False by (auto simp: filter_empty_conv)
    with Cons False show ?thesis by simp
  qed
qed

lemma seen_proteins_result:
  fixes df :: "('a raw_row_scheme) frame"
  assumes "df \<noteq> []"
  shows "train_test_split_proteins rng df False =
     Inr (concat (map (\<lambda>p. df_sample rng (rows_of p df)) (unique (map (\<lambda>(i, r). Protein r) df))),
          concat (map (\<lambda>p. df_drop (rows_of p df) (map fst (df_sample rng (rows_of p df))))
                   (unique (map (\<lambda>(i, r). Protein r) df))))"
proof -
  have "set (unique (map (\<lambda>(i, r). Protein r) df)) \<noteq> {}"
    using assms by (simp add: unique_facts)
  then have "unique (map (\<lambda>(i, r). Protein r) df) \<noteq> []" by auto
  then show ?thesis
    by (simp add: train_test_split_proteins_def rows_of_def Let_def comp_def)
qed

lemma df_sample_eq:
  assumes "permutations rng" "g \<noteq> []"
  shows "df_sample rng g = map (\<lambda>i. g ! i) (take (nat (sample_size (length g))) (rng (length g)))"
    and "distinct (take (nat (sample_size (length g))) (rng (length g)))"
    and "set (take (nat (sample_size (length g))) (rng (length g))) \<subseteq> {0..<length g}"
proof -
  have "0 \<le> sample_size (length g)"
    using sample_size_ge1 [of "length g"] assms(2) by simp
  then show "df_sample rng g = map (\<lambda>i. g ! i) (take (nat (sample_size (length g))) (rng (length g)))"
    by (simp add: df_sample_def py_slice_prefix)
  show "distinct (take (nat (sample_size (length g))) (rng (length g)))"
    using permutations_facts(1) [OF assms(1)] by simp
  show "set (take (nat (sample_size (length g))) (rng (length g))) \<subseteq> {0..<length g}"
    using permutations_facts(2) [OF assms(1), of "length g"] set_take_subset by fastforce
qed

lemma sample_size_le: "0 < k \<Longrightarrow> sample_size k \<le> int k"
  using sample_size_less [of k] sample_size_one by (cases "k = 1") auto

lemma df_sample_length:
  assumes "permutations rng" "g \<noteq> []"
  shows "int (length (df_sample rng g)) = sample_size (length g)"
proof -
  have "1 \<le> sample_size (length g)" "sample_size (length g) \<le> int (length g)"
    using sample_size_ge1 [of "length g"] sample_size_le [of "length g"] assms(2) by simp_all
  then show ?thesis
    unfolding df_sample_eq(1) [OF assms]
    using permutations_facts(3) [OF assms(1), of "length g"] by simp
qed

lemma df_sample_subset:
  assumes "permutations rng" "g \<noteq> []"
  shows "set (df_sample rng g) \<subseteq> set g"
  unfolding df_sample_eq(1) [OF assms] using df_sample_eq(3) [OF assms] by auto

lemma df_sample_rest:
  assumes "permutations rng" "g \<noteq> []" "distinct (map fst g)"
  shows "mset (df_sample rng g) + mset (df_drop g (map fst (df_sample rng g))) = mset g"
  unfolding df_sample_eq(1) [OF assms(1,2)]
  using assms(3) df_sample_eq(2,3) [OF assms(1,2)] by (rule mset_nths_rest)

lemma df_drop_subset: "set (df_drop g labels) \<subseteq> set g"
  by (auto simp: df_drop_def)

lemma rows_of_nonempty_iff:
  "rows_of p df \<noteq> [] \<longleftrightarrow> p \<in> set (unique (map (\<lambda>(i, r). Protein r) df))"
  by (auto simp: rows_of_def unique_facts filter_empty_conv)

lemma rows_of_protein: "x \<in> set (rows_of p df) \<Longrightarrow> Protein (snd x) = p"
  by (auto simp: rows_of_def)

lemma distinct_rows_of: "distinct (map fst df) \<Longrightarrow> distinct (map fst (rows_of p df))"
  by (simp add: rows_of_def distinct_map_filter)

text \<open>The rows of one protein in the two partitions of the second branch.\<close>

lemma seen_proteins_rows_of:
  fixes df :: "('a raw_row_scheme) frame"
  assumes rng: "permutations rng" and p: "rows_of p df \<noteq> []"
  shows "\<exists>train test. train_test_split_proteins rng df False = Inr (train, test) \<and>
     rows_of p train = df_sample rng (rows_of p df) \<and>
     rows_of p test = df_drop (rows_of p df) (map fst (df_sample rng (rows_of p df)))"
proof -
  let ?ps = "unique (map (\<lambda>(i, r). Protein r) df)"
  have ne: "df \<noteq> []" using p by (auto simp: rows_of_def)
  have mem: "p \<in> set ?ps" using p by (simp add: rows_of_nonempty_iff)
  have d: "distinct ?ps" by (rule unique_facts)
  have tr: "\<forall>q \<in> set ?ps. \<forall>x \<in> set (df_sample rng (rows_of q df)). Protein (snd x) = q"
    using df_sample_subset [OF rng] rows_of_protein
    by (metis rows_of_nonempty_iff subsetD)
  have te: "\<forall>q \<in> set ?ps. \<forall>x \<in> set (df_drop (rows_of q df) (map fst (df_sample rng (rows_of q df)))).
      Protein (snd x) = q"
    using df_drop_subset rows_of_protein by (metis subsetD)
  have r: "rows_of p frame = filter (\<lambda>x. Protein (snd x) = p) frame"
    for frame :: "('a raw_row_scheme) frame"
    by (simp add: rows_of_def case_prod_unfold)
  show ?thesis
    unfolding seen_proteins_result [OF ne] r
    using filter_concat_groups [OF d mem tr] filter_concat_groups [OF d mem te]
    by (intro exI conjI refl) (simp_all only: r)
qed

lemma df_sample_in_order:
  "0 \<le> sample_size (length g) \<Longrightarrow>
   df_sample in_order g = map (\<lambda>i. g ! i) (take (nat (sample_size (length g))) [0..<length g])"
  by (simp add: df_sample_def py_slice_prefix in_order_def)

lemma sample_size_3: "sample_size 3 = 2"
  by code_simp

lemma split_frame4:
  "train_test_split_proteins in_order frame4 False =
     Inr ([frame4 ! 0, frame4 ! 1, frame4 ! 3], [frame4 ! 2])"
proof -
  have u: "unique (map (\<lambda>(i, r). Protein r) frame4) = [''P1'', ''P2'']"
    by (simp add: frame4_def unique_def)
  have g1: "rows_of ''P1'' frame4 = [frame4 ! 0, frame4 ! 1, frame4 ! 2]"
    and g2: "rows_of ''P2'' frame4 = [frame4 ! 3]"
    by (simp_all add: frame4_def rows_of_def)
  have t3: "take 2 [0..<3] = [0, Suc 0]" by (simp add: upt_rec take_Suc_conv_app_nth numeral_2_eq_2 numeral_3_eq_3)
  have z3: "sample_size (length [frame4 ! 0, frame4 ! 1, frame4 ! 2]) = 2"
    using sample_size_3 by (simp add: numeral_3_eq_3)
  have z1: "sample_size (length [frame4 ! 3]) = 1"
    using sample_size_one by simp
  have s1: "df_sample in_order [frame4 ! 0, frame4 ! 1, frame4 ! 2] = [frame4 ! 0, frame4 ! 1]"
    by (subst df_sample_in_order) (simp_all only: z3, simp_all add: t3)
  have s2: "df_sample in_order [frame4 ! 3] = [frame4 ! 3]"
    by (subst df_sample_in_order) (simp_all only: z1, simp_all)
  have d1: "df_drop [frame4 ! 0, frame4 ! 1, frame4 ! 2] [fst (frame4 ! 0), fst (frame4 ! 1)] = [frame4 ! 2]"
    and d2: "df_drop [frame4 ! 3] [fst (frame4 ! 3)] = []"
    by (simp_all add: df_drop_def frame4_def)
  have ne: "frame4 \<noteq> []" by (simp add: frame4_def)
  show ?thesis
    unfolding seen_proteins_result [OF ne] u
    by (simp only: list.map concat.simps g1 g2 s1 s2 d1 d2 append.simps append_Nil2)
qed

text \<open>
  Claim C3. In the second branch, on a frame with unique index labels, a protein with
  at least two rows has at least one row in each partition; the number of its rows in
  the train partition is \<^verbatim>\<open>round(0.7 * k)\<close> computed in floats, \<open>k\<close> its number of
  rows, and for fewer than \<open>2 ^ 48\<close> rows this differs from \<open>0.7 * k\<close> by at most one
  half.
\<close>

theorem seen_proteins_both_sides:
  fixes df :: "('a raw_row_scheme) frame"
  assumes rng: "permutations rng" and index: "distinct (map fst df)"
    and p: "2 \<le> length (rows_of p df)"
  shows "\<exists>train test. train_test_split_proteins rng df False = Inr (train, test) \<and>
     rows_of p train \<noteq> [] \<and> rows_of p test \<noteq> [] \<and>
     int (length (rows_of p train)) = sample_size (length (rows_of p df)) \<and>
     (length (rows_of p df) < 2 ^ 48 \<longrightarrow>
        \<bar>10 * int (length (rows_of p train)) - 7 * int (length (rows_of p df))\<bar> \<le> 5)"
proof -
  let ?g = "rows_of p df"
  have ne: "?g \<noteq> []"
  proof
    assume "?g = []"
    then have "length ?g = 0" by (simp only: list.size)
    with p show False by linarith
  qed
  obtain train test where r: "train_test_split_proteins rng df False = Inr (train, test)"
    and tr: "rows_of p train = df_sample rng ?g"
    and te: "rows_of p test = df_drop ?g (map fst (df_sample rng ?g))"
    using seen_proteins_rows_of [OF rng ne] by blast
  have len: "int (length (rows_of p train)) = sample_size (length ?g)"
    unfolding tr by (rule df_sample_length [OF rng ne])
  have pos: "0 < length ?g" using p by linarith
  have s: "1 \<le> sample_size (length ?g)" "sample_size (length ?g) < int (length ?g)"
  proof -
    from pos show "1 \<le> sample_size (length ?g)" by (rule sample_size_ge1)
    show "sample_size (length ?g) < int (length ?g)" by (rule sample_size_less [OF p])
  qed
  have "size (mset (rows_of p train) + mset (rows_of p test)) = size (mset ?g)"
    unfolding tr te using df_sample_rest [OF rng ne distinct_rows_of [OF index]] by simp
  then have sum: "length (rows_of p train) + length (rows_of p test) = length ?g"
    by simp
  have "rows_of p train \<noteq> []" using len s(1) by auto
  moreover have "rows_of p test \<noteq> []" using len s(2) sum by auto
  moreover have "\<bar>10 * int (length (rows_of p train)) - 7 * int (length ?g)\<bar> \<le> 5"
    if "length ?g < 2 ^ 48"
    unfolding len by (rule sample_size_seventy [OF pos that])
  ultimately show ?thesis using r len by blast
qed

theorem seen_proteins_both_sides_witness:
  "permutations in_order \<and> distinct (map fst frame4) \<and> 2 \<le> length (rows_of ''P1'' frame4) \<and>
   length (rows_of ''P1'' frame4) < 2 ^ 48 \<and>
   (\<exists>train test. train_test_split_proteins in_order frame4 False = Inr (train, test) \<and>
     rows_of ''P1'' train \<noteq> [] \<and> rows_of ''P1'' test \<noteq> [] \<and>
     \<bar>10 * int (length (rows_of ''P1'' train)) - 7 * int (length (rows_of ''P1'' frame4))\<bar> \<le> 5)"
proof -
  have h: "distinct (map fst frame4)" "2 \<le> length (rows_of ''P1'' frame4)"
    "length (rows_of ''P1'' frame4) < 2 ^ 48"
    by (simp_all add: frame4_def rows_of_def)
  show ?thesis
    using permutations_in_order h
      seen_proteins_both_sides [OF permutations_in_order h(1) h(2)]
    by blast
qed

text \<open>
  Claim C10. In the second branch a protein with exactly one row has that row in the
  train partition and no row in the test partition.
\<close>

theorem seen_proteins_single:
  fixes df :: "('a raw_row_scheme) frame"
  assumes rng: "permutations rng" and p: "length (rows_of p df) = 1"
  shows "\<exists>train test. train_test_split_proteins rng df False = Inr (train, test) \<and>
     rows_of p train = rows_of p df \<and> rows_of p test = []"
proof -
  let ?g = "rows_of p df"
  obtain x where g: "?g = [x]" using p by (cases ?g) auto
  have ne: "?g \<noteq> []" using g by simp
  obtain train test where r: "train_test_split_proteins rng df False = Inr (train, test)"
    and tr: "rows_of p train = df_sample rng ?g"
    and te: "rows_of p test = df_drop ?g (map fst (df_sample rng ?g))"
    using seen_proteins_rows_of [OF rng ne] by blast
  have "mset (rng 1) = mset [0..<1]" using rng unfolding permutations_def by blast
  then have "rng 1 = [0]" by simp
  moreover have "sample_size (Suc 0) = 1" using sample_size_one by simp
  ultimately have "df_sample rng [x] = [x]"
    by (simp add: df_sample_def py_slice_def)
  then have "rows_of p train = ?g" "rows_of p test = []"
    unfolding tr te g by (simp_all add: df_drop_def case_prod_unfold)
  with r show ?thesis by blast
qed

theorem seen_proteins_single_witness:
  "permutations in_order \<and> length (rows_of ''P2'' frame4) = 1 \<and>
   (\<exists>train test. train_test_split_proteins in_order frame4 False = Inr (train, test) \<and>
     rows_of ''P2'' train = rows_of ''P2'' frame4 \<and> rows_of ''P2'' test = [])"
proof -
  have h: "length (rows_of ''P2'' frame4) = 1"
    by (simp add: frame4_def rows_of_def)
  show ?thesis
    using permutations_in_order h seen_proteins_single [OF permutations_in_order h]
    by blast
qed

section \<open>The split is a partition\<close>

lemma sk_train_test_split_partition:
  assumes rng: "permutations rng" and d: "distinct arr"
    and r: "sk_train_test_split rng arr ts = Inr (a, b)"
  shows "set a \<inter> set b = {}" "set a \<union> set b = set arr"
proof -
  let ?n = "length arr"
  obtain n_train n_test where v: "validate_shuffle_split ?n ts = Inr (n_train, n_test)"
    using r by (auto simp: sk_train_test_split_def split: sum.splits)
  have sum: "n_test + n_train = int ?n"
    using v by (auto simp: validate_shuffle_split_def Let_def split: if_splits)
  have len: "length (rng ?n) = ?n" by (rule permutations_facts(3) [OF rng])
  define it where "it = py_slice (rng ?n) 0 n_test"
  define itr where "itr = py_slice (rng ?n) n_test (int (length (rng ?n)))"
  have ab: "a = map (\<lambda>i. arr ! i) itr" "b = map (\<lambda>i. arr ! i) it"
    using r unfolding sk_train_test_split_def v it_def itr_def len
    by (simp_all add: Let_def sum)
  have perm: "it @ itr = rng ?n" unfolding it_def itr_def by (rule py_slice_split)
  have "distinct (it @ itr)" "set (it @ itr) = {0..<?n}"
    unfolding perm using permutations_facts [OF rng] by simp_all
  from nth_permuted [OF d this]
  have "distinct (b @ a)" "set (b @ a) = set arr"
    unfolding ab by simp_all
  then show "set a \<inter> set b = {}" "set a \<union> set b = set arr" by auto
qed

lemma mset_concat_parts:
  assumes "\<forall>p \<in> set ps. mset (A p) + mset (B p) = mset (G p)"
  shows "mset (concat (map A ps)) + mset (concat (map B ps)) = mset (concat (map G ps))"
  using assms
proof (induction ps)
  case Nil
  then show ?case by simp
next
  case (Cons p ps)
  then have "mset (A p) + mset (B p) = mset (G p)"
    "mset (concat (map A ps)) + mset (concat (map B ps)) = mset (concat (map G ps))"
    by simp_all
  then show ?case by (simp add: ac_simps)
qed

lemma new_proteins_partition:
  fixes df :: "('a raw_row_scheme) frame"
  assumes rng: "permutations rng"
    and r: "train_test_split_proteins rng df True = Inr (train, test)"
  shows "mset train + mset test = mset df"
proof -
  let ?ps = "unique (map (\<lambda>(i, r). Protein r) df)"
  obtain ts a b where sk: "sk_train_test_split rng ?ps ts = Inr (a, b)"
    and tr: "train = filter (\<lambda>(i, r). Protein r \<in> set a) df"
    and te: "test = filter (\<lambda>(i, r). Protein r \<in> set b) df"
    using r by (auto simp: train_test_split_proteins_def Let_def split: sum.splits)
  note part = sk_train_test_split_partition [OF rng unique_facts(1) sk]
  have "\<forall>x \<in> set df. (case x of (i, r) \<Rightarrow> Protein r \<in> set a) \<noteq> (case x of (i, r) \<Rightarrow> Protein r \<in> set b)"
  proof
    fix x assume "x \<in> set df"
    then have "Protein (snd x) \<in> (\<lambda>(i, r). Protein r) ` set df"
      by (intro image_eqI [where x = x]) (simp_all add: case_prod_unfold)
    then have "Protein (snd x) \<in> set ?ps" by (simp add: unique_facts)
    then have "Protein (snd x) \<in> set a \<union> set b" using part(2) by simp
    with part(1) show "(case x of (i, r) \<Rightarrow> Protein r \<in> set a) \<noteq> (case x of (i, r) \<Rightarrow> Protein r \<in> set b)"
      by (cases x) auto
  qed
  then show ?thesis unfolding tr te by (rule mset_filter_partition)
qed

lemma seen_proteins_partition:
  fixes df :: "('a raw_row_scheme) frame"
  assumes rng: "permutations rng" and index: "distinct (map fst df)"
    and r: "train_test_split_proteins rng df False = Inr (train, test)"
  shows "mset train + mset test = mset df"
proof -
  let ?ps = "unique (map (\<lambda>(i, r). Protein r) df)"
  have ne: "df \<noteq> []"
    using r by (auto simp: train_test_split_proteins_def unique_def)
  have tt: "train = concat (map (\<lambda>p. df_sample rng (rows_of p df)) ?ps)"
    "test = concat (map (\<lambda>p. df_drop (rows_of p df) (map fst (df_sample rng (rows_of p df)))) ?ps)"
    using r unfolding seen_proteins_result [OF ne] by simp_all
  have "\<forall>p \<in> set ?ps. mset (df_sample rng (rows_of p df)) +
       mset (df_drop (rows_of p df) (map fst (df_sample rng (rows_of p df)))) = mset (rows_of p df)"
    using df_sample_rest [OF rng _ distinct_rows_of [OF index]]
    by (simp add: rows_of_nonempty_iff)
  then have "mset train + mset test = mset (concat (map (\<lambda>p. rows_of p df) ?ps))"
    unfolding tt by (rule mset_concat_parts)
  also have "(\<lambda>p. rows_of p df) = (\<lambda>p. filter (\<lambda>x. Protein (snd x) = p) df)"
    by (simp add: rows_of_def case_prod_unfold)
  also have "mset (concat (map (\<lambda>p. filter (\<lambda>x. Protein (snd x) = p) df) ?ps))
      = mset (filter (\<lambda>x. Protein (snd x) \<in> set ?ps) df)"
    by (rule mset_concat_groups [OF unique_facts(1)])
  also have "filter (\<lambda>x. Protein (snd x) \<in> set ?ps) df = df"
  proof -
    have "Protein (snd x) \<in> set ?ps" if "x \<in> set df" for x
    proof -
      from that have "Protein (snd x) \<in> (\<lambda>(i, r). Protein r) ` set df"
        by (intro image_eqI [where x = x]) (simp_all add: case_prod_unfold)
      then show ?thesis by (simp add: unique_facts)
    qed
    then show ?thesis by (simp add: filter_id_conv)
  qed
  finally show ?thesis .
qed

text \<open>
  Claim C4. For both branches, on a frame with unique index labels: when the split
  returns, the two partitions together hold exactly the rows of the input, each once,
  and no index label occurs in both or twice.
\<close>

theorem split_partition:
  fixes df :: "('a raw_row_scheme) frame"
  assumes rng: "permutations rng" and index: "distinct (map fst df)"
    and r: "train_test_split_proteins rng df new_proteins = Inr (train, test)"
  shows "mset train + mset test = mset df \<and> distinct (map fst (train @ test)) \<and>
     set train \<union> set test = set df \<and> set train \<inter> set test = {}"
proof -
  have m: "mset train + mset test = mset df"
    using new_proteins_partition [OF rng] seen_proteins_partition [OF rng index] r
    by (cases new_proteins) simp_all
  then have m': "mset (train @ test) = mset df" by simp
  then have "mset (map fst (train @ test)) = mset (map fst df)" by (metis mset_map)
  then have d: "distinct (map fst (train @ test))"
    using index by (metis mset_eq_imp_distinct_iff)
  have "set (train @ test) = set df" using m' by (rule mset_eq_setD)
  moreover have "distinct (train @ test)" using d unfolding distinct_map by blast
  ultimately show ?thesis using m d by auto
qed

theorem split_partition_witness:
  "permutations in_order \<and> distinct (map fst frame4) \<and>
   train_test_split_proteins in_order frame4 False
     = Inr ([frame4 ! 0, frame4 ! 1, frame4 ! 3], [frame4 ! 2]) \<and>
   mset [frame4 ! 0, frame4 ! 1, frame4 ! 3] + mset [frame4 ! 2] = mset frame4 \<and>
   distinct (map fst frame75) \<and>
   \<not> isl (train_test_split_proteins in_order frame75 True) \<and>
   mset (fst (projr (train_test_split_proteins in_order frame75 True))) +
   mset (snd (projr (train_test_split_proteins in_order frame75 True))) = mset frame75"
proof -
  have h4: "distinct (map fst frame4)" by (simp add: frame4_def)
  have "map fst frame75 = [0..<75]"
    unfolding frame75_def by (simp add: comp_def map_idI)
  then have h75: "distinct (map fst frame75)" by simp
  have n: "43 \<le> length (unique (map (\<lambda>(i, r). Protein r) frame75))"
    using card_protein_ids_frame75 by (simp add: card_protein_ids)
  obtain train test where r: "train_test_split_proteins in_order frame75 True = Inr (train, test)"
    using new_proteins_card [OF permutations_in_order n] by blast
  show ?thesis
    using permutations_in_order h4 h75 split_frame4 r
      split_partition [OF permutations_in_order h4 split_frame4]
      split_partition [OF permutations_in_order h75 r]
    by simp
qed

section \<open>The forward pass\<close>

lemma sum_list_upt_sum: "sum_list (map f [0..<n]) = (\<Sum>k = 0..<n. f k)"
  for f :: "nat \<Rightarrow> real"
  by (induction n) simp_all

lemma dot_index:
  assumes "length x = n"
  shows "dot (map w [0..<n]) x = (\<Sum>k = 0..<n. w k * x ! k)"
proof -
  have "map2 (*) (map w [0..<n]) x = map (\<lambda>k. w k * x ! k) [0..<n]"
    using assms by (intro nth_equalityI) simp_all
  then show ?thesis by (simp add: dot_def sum_list_upt_sum)
qed

lemma linear_row_Linear:
  assumes "length x = n_in"
  shows "linear_row (Linear n_in n_out w b) x = map (\<lambda>j. spec_linear w b n_in x j) [0..<n_out]"
  using assms
  by (intro nth_equalityI) (simp_all add: linear_row_def Linear_def spec_linear_def dot_index)

lemma linear_forward_Linear:
  assumes "\<forall>x \<in> set X. length x = n_in"
  shows "linear_forward (Linear n_in n_out w b) X
     = Inr (map (\<lambda>x. map (\<lambda>j. spec_linear w b n_in x j) [0..<n_out]) X)"
proof -
  have "in_features (Linear n_in n_out w b) = n_in" by (simp add: Linear_def)
  moreover have "map (linear_row (Linear n_in n_out w b)) X
      = map (\<lambda>x. map (\<lambda>j. spec_linear w b n_in x j) [0..<n_out]) X"
    using assms by (intro map_cong refl linear_row_Linear) simp
  ultimately show ?thesis using assms by (simp add: linear_forward_def)
qed

lemma normalize_row_index:
  assumes "length z = n"
  shows "normalize_row (map mu [0..<n]) (map s2 [0..<n]) (map g [0..<n]) (map be [0..<n]) z
     = map (\<lambda>j. (z ! j - mu j) / sqrt (s2 j + 1 / 100000) * g j + be j) [0..<n]"
  using assms by (intro nth_equalityI) (simp_all add: normalize_row_def eps_def)

lemma batch_mean_spec: "batch_mean Z j = spec_mean (map (\<lambda>z. z ! j) Z)"
  by (simp add: batch_mean_def column_def spec_mean_def sum_list_sum_nth)

lemma batch_var_spec: "batch_var Z j = spec_variance (map (\<lambda>z. z ! j) Z)"
proof -
  have "sum_list (map (\<lambda>v. (v - batch_mean Z j)\<^sup>2) (map (\<lambda>z. z ! j) Z))
      = (\<Sum>r = 0..<length Z. (map (\<lambda>z. z ! j) Z ! r - batch_mean Z j)\<^sup>2)"
    by (simp add: sum_list_sum_nth)
  then show ?thesis
    by (simp add: batch_var_def column_def spec_variance_def batch_mean_spec)
qed

lemma batch_norm_forward_BatchNorm1d:
  assumes "\<forall>z \<in> set Z. length z = n" "mode \<longrightarrow> length Z \<noteq> 1"
  shows "\<exists>bn'. batch_norm_forward mode (BatchNorm1d n g be rm rv) Z =
     Inr (map (\<lambda>z. map (\<lambda>j.
            (z ! j - (if mode then spec_mean (map (\<lambda>z. z ! j) Z) else rm j)) /
            sqrt ((if mode then spec_variance (map (\<lambda>z. z ! j) Z) else rv j) + 1 / 100000) *
            g j + be j) [0..<n]) Z, bn')"
proof (cases mode)
  case False
  have "map (normalize_row (map rm [0..<n]) (map rv [0..<n]) (map g [0..<n]) (map be [0..<n])) Z
      = map (\<lambda>z. map (\<lambda>j. (z ! j - rm j) / sqrt (rv j + 1 / 100000) * g j + be j) [0..<n]) Z"
    using assms(1) by (intro map_cong refl normalize_row_index) simp
  then show ?thesis
    using False assms(1) by (simp add: batch_norm_forward_def BatchNorm1d_def)
next
  case True
  have "map (normalize_row (map (batch_mean Z) [0..<n]) (map (batch_var Z) [0..<n])
          (map g [0..<n]) (map be [0..<n])) Z
      = map (\<lambda>z. map (\<lambda>j. (z ! j - batch_mean Z j) / sqrt (batch_var Z j + 1 / 100000) * g j + be j)
          [0..<n]) Z"
    using assms(1) by (intro map_cong refl normalize_row_index) simp
  then show ?thesis
    using True assms
    by (cases "Z = []")
      (simp_all add: batch_norm_forward_def BatchNorm1d_def Let_def batch_mean_spec batch_var_spec)
qed

lemma stage_spec:
  assumes rows: "\<forall>x \<in> set X. length x = n_in" and batch: "mode \<longrightarrow> length X \<noteq> 1"
  shows "\<exists>a n bn'. linear_forward (Linear n_in n_out w b) X = Inr a \<and>
      batch_norm_forward mode (BatchNorm1d n_out g be rm rv) a = Inr (n, bn') \<and>
      relu n = spec_stage mode n_in n_out w b g be rm rv X"
proof -
  define F where "F = (\<lambda>x. map (\<lambda>j. spec_linear w b n_in x j) [0..<n_out])"
  define a where "a = map F X"
  have lin: "linear_forward (Linear n_in n_out w b) X = Inr a"
    unfolding a_def F_def using rows by (rule linear_forward_Linear)
  have arows: "\<forall>z \<in> set a. length z = n_out" by (auto simp: a_def F_def)
  have alen: "mode \<longrightarrow> length a \<noteq> 1" using batch by (simp add: a_def)
  define N where "N = map (\<lambda>z. map (\<lambda>j.
            (z ! j - (if mode then spec_mean (map (\<lambda>z. z ! j) a) else rm j)) /
            sqrt ((if mode then spec_variance (map (\<lambda>z. z ! j) a) else rv j) + 1 / 100000) *
            g j + be j) [0..<n_out]) a"
  obtain bn' where bn: "batch_norm_forward mode (BatchNorm1d n_out g be rm rv) a = Inr (N, bn')"
    unfolding N_def using batch_norm_forward_BatchNorm1d [OF arows alen] by blast
  have col: "map (\<lambda>z. z ! j) a = map (\<lambda>x'. spec_linear w b n_in x' j) X" if "j < n_out" for j
    using that by (simp add: a_def F_def)
  have "relu N = spec_stage mode n_in n_out w b g be rm rv X"
    unfolding relu_def N_def a_def spec_stage_def map_map comp_def
  proof (intro map_cong refl)
    fix x j assume "x \<in> set X" "j \<in> set [0..<n_out]"
    then have j: "j < n_out" by simp
    have Fj: "F x ! j = spec_linear w b n_in x j" using j by (simp add: F_def)
    have colF: "map (\<lambda>x. F x ! j) X = map (\<lambda>x'. spec_linear w b n_in x' j) X"
      using j by (simp add: F_def)
    show "max 0 ((F x ! j - (if mode then spec_mean (map (\<lambda>x. F x ! j) X) else rm j)) /
            sqrt ((if mode then spec_variance (map (\<lambda>x. F x ! j) X) else rv j) + 1 / 100000) *
            g j + be j)
        = (let z = spec_linear w b n_in x j;
               zs = map (\<lambda>x'. spec_linear w b n_in x' j) X;
               mu = (if mode then spec_mean zs else rm j);
               s2 = (if mode then spec_variance zs else rv j);
               standardised = (z - mu) / sqrt (s2 + 1 / 100000) * g j + be j
           in if standardised < 0 then 0 else standardised)"
      unfolding colF Fj Let_def by (simp add: max_def not_less)
  qed
  with lin bn show ?thesis by blast
qed

lemma spec_stage_shape:
  "length (spec_stage mode n_in n_out w b g be rm rv X) = length X"
  "\<forall>h \<in> set (spec_stage mode n_in n_out w b g be rm rv X). length h = n_out"
  by (auto simp: spec_stage_def)

text \<open>
  Claim C9. For the module that \<open>__init__\<close> builds for an input size, with any
  values in its tensors and in either mode, and for a batch of rows of that size (not
  a single row in training mode), \<open>forward\<close> returns what the specification
  describes: three stages of a linear transform, batch normalisation and
  rectified-linear activation with 512, 256 and 128 outputs, then a linear transform
  with one output per row, returned as it is.
\<close>

theorem forward_spec:
  assumes rows: "\<forall>x \<in> set X. length x = input_size"
    and batch: "mode \<longrightarrow> length X \<noteq> 1"
  shows "\<exists>m'. forward (DrugProteinNN_init input_size v mode) X
     = Inr (spec_forward input_size v mode X, m')"
proof -
  let ?m = "DrugProteinNN_init input_size v mode"
  define h1 where "h1 = spec_stage mode input_size 512 (w1 v) (b1 v) (g1 v) (be1 v) (rm1 v) (rv1 v) X"
  define h2 where "h2 = spec_stage mode 512 256 (w2 v) (b2 v) (g2 v) (be2 v) (rm2 v) (rv2 v) h1"
  define h3 where "h3 = spec_stage mode 256 128 (w3 v) (b3 v) (g3 v) (be3 v) (rm3 v) (rv3 v) h2"
  have m: "fc1 ?m = Linear input_size 512 (w1 v) (b1 v)"
    "bn1 ?m = BatchNorm1d 512 (g1 v) (be1 v) (rm1 v) (rv1 v)"
    "fc2 ?m = Linear 512 256 (w2 v) (b2 v)"
    "bn2 ?m = BatchNorm1d 256 (g2 v) (be2 v) (rm2 v) (rv2 v)"
    "fc3 ?m = Linear 256 128 (w3 v) (b3 v)"
    "bn3 ?m = BatchNorm1d 128 (g3 v) (be3 v) (rm3 v) (rv3 v)"
    "fc4 ?m = Linear 128 1 (w4 v) (b4 v)" "training ?m = mode"
    by (simp_all add: DrugProteinNN_init_def)
  have s1: "length h1 = length X" "\<forall>h \<in> set h1. length h = 512"
    unfolding h1_def by (rule spec_stage_shape)+
  have s2: "length h2 = length X" "\<forall>h \<in> set h2. length h = 256"
    unfolding h2_def using spec_stage_shape [of mode 512 256 _ _ _ _ _ _ h1] s1(1) by simp_all
  have s3: "length h3 = length X" "\<forall>h \<in> set h3. length h = 128"
    unfolding h3_def using spec_stage_shape [of mode 256 128 _ _ _ _ _ _ h2] s2(1) by simp_all
  obtain a1 n1 bn1' where 1: "linear_forward (fc1 ?m) X = Inr a1"
    "batch_norm_forward mode (bn1 ?m) a1 = Inr (n1, bn1')" "relu n1 = h1"
    unfolding m h1_def using stage_spec [OF rows batch] by blast
  have batch1: "mode \<longrightarrow> length h1 \<noteq> 1" using batch s1(1) by simp
  obtain a2 n2 bn2' where 2: "linear_forward (fc2 ?m) h1 = Inr a2"
    "batch_norm_forward mode (bn2 ?m) a2 = Inr (n2, bn2')" "relu n2 = h2"
    unfolding m h2_def using stage_spec [OF s1(2) batch1] by blast
  have batch2: "mode \<longrightarrow> length h2 \<noteq> 1" using batch s2(1) by simp
  obtain a3 n3 bn3' where 3: "linear_forward (fc3 ?m) h2 = Inr a3"
    "batch_norm_forward mode (bn3 ?m) a3 = Inr (n3, bn3')" "relu n3 = h3"
    unfolding m h3_def using stage_spec [OF s2(2) batch2] by blast
  have "linear_forward (fc4 ?m) h3
      = Inr (map (\<lambda>x. map (\<lambda>j. spec_linear (w4 v) (b4 v) 128 x j) [0..<1]) h3)"
    unfolding m using s3(2) by (rule linear_forward_Linear)
  then have 4: "linear_forward (fc4 ?m) h3 = Inr (spec_forward input_size v mode X)"
    by (simp add: spec_forward_def Let_def h1_def h2_def h3_def)
  have "forward ?m X = Inr (spec_forward input_size v mode X,
      ?m\<lparr>bn1 := bn1', bn2 := bn2', bn3 := bn3'\<rparr>)"
    unfolding forward_def m(8)
    by (simp only: 1 2 3 4 sum.case prod.case)
  then show ?thesis by blast
qed

lemma spec_forward_example:
  "spec_forward n example_values mode X = replicate (length X) [- 3]"
proof -
  have "map (\<lambda>h. [spec_linear (w4 example_values) (b4 example_values) 128 h 0]) H
      = replicate (length H) [- 3]" for H
    by (simp add: spec_linear_def example_values_def map_replicate_const)
  then show ?thesis
    unfolding spec_forward_def Let_def by (simp only: spec_stage_shape(1))
qed

theorem forward_spec_witness:
  "length [[1, 2], [3, 4 :: real]] \<noteq> 1 \<and>
   (\<exists>m'. forward (DrugProteinNN_init 2 example_values True) [[1, 2], [3, 4]]
      = Inr ([[- 3], [- 3]], m')) \<and>
   (\<exists>m'. forward (DrugProteinNN_init 2 example_values False) [[7, 8]] = Inr ([[- 3]], m'))"
proof -
  have r1: "\<forall>x \<in> set [[1, 2], [3, 4 :: real]]. length x = 2" by simp
  have b1: "True \<longrightarrow> length [[1, 2], [3, 4 :: real]] \<noteq> 1" by simp
  have r2: "\<forall>x \<in> set [[7, 8 :: real]]. length x = 2" by simp
  have b2: "False \<longrightarrow> length [[7, 8 :: real]] \<noteq> 1" by simp
  show ?thesis
    using forward_spec [OF r1 b1, of example_values] forward_spec [OF r2 b2, of example_values]
    by (simp add: spec_forward_example)
qed

section \<open>The concordance index\<close>

lemma count_pairs_append:
  "count_pairs R as (bs @ cs) = count_pairs R as bs + count_pairs R as cs"
  by (simp add: count_pairs_def)

lemma count_pairs_mset:
  assumes "mset as = mset as'" "mset bs = mset bs'"
  shows "count_pairs R as bs = count_pairs R as' bs'"
proof -
  have "length (filter P as) = length (filter P as')" for P
    using assms(1) by (metis mset_filter size_mset)
  then have "count_pairs R as bs = count_pairs R as' bs"
    by (simp add: count_pairs_def)
  also have "\<dots> = sum_mset (image_mset (\<lambda>b. length (filter (\<lambda>a. R a b) as')) (mset bs))"
    unfolding count_pairs_def by (metis mset_map sum_mset_sum_list)
  also have "\<dots> = count_pairs R as' bs'"
    unfolding count_pairs_def assms(2) by (metis mset_map sum_mset_sum_list)
  finally show ?thesis .
qed

lemma dropWhile_sorted_greater:
  assumes "sorted (map fst ((t, p) # rest))"
  shows "\<forall>b \<in> set (dropWhile (\<lambda>(t', p'). t' = t) rest). t < fst b"
  using assms
proof (induction rest)
  case Nil
  then show ?case by simp
next
  case (Cons x rest)
  show ?case
  proof (cases "fst x = t")
    case True
    with Cons show ?thesis by (auto simp: case_prod_unfold)
  next
    case False
    with Cons.prems have "t < fst x" by auto
    moreover from Cons.prems have "\<forall>b \<in> set rest. fst x \<le> fst b" by auto
    ultimately show ?thesis using False by (auto simp: case_prod_unfold)
  qed
qed

lemma takeWhile_group:
  "\<forall>b \<in> set (takeWhile (\<lambda>(t', p'). t' = t) rest). fst b = t"
  by (auto dest!: set_takeWhileD)

text \<open>What the loop adds to its three counters.\<close>

lemma concordance_loop_counts:
  assumes "sorted (map fst rest)" "\<forall>a \<in> set seen. \<forall>b \<in> set rest. fst a < fst b"
  shows "concordance_loop rest (map snd seen) (c, t, p) =
     (c + count_pairs correct_pair (seen @ rest) rest,
      t + count_pairs tied_pair (seen @ rest) rest,
      p + count_pairs ordered_pair (seen @ rest) rest)"
  using assms
proof (induction "length rest" arbitrary: rest seen c t p rule: less_induct)
  case less
  show ?case
  proof (cases rest)
    case Nil
    then show ?thesis by (simp add: count_pairs_def)
  next
    case (Cons x rest0)
    obtain t0 p0 where x: "x = (t0, p0)" by (cases x)
    define g where "g = (t0, p0) # takeWhile (\<lambda>(t', p'). t' = t0) rest0"
    define rest' where "rest' = dropWhile (\<lambda>(t', p'). t' = t0) rest0"
    have split: "rest = g @ rest'"
      by (simp add: Cons x g_def rest'_def)
    have g: "\<forall>b \<in> set g. fst b = t0"
      using takeWhile_group [of t0 rest0] by (auto simp: g_def)
    have r': "\<forall>b \<in> set rest'. t0 < fst b"
      unfolding rest'_def using less.prems(1) unfolding Cons x by (rule dropWhile_sorted_greater)
    have seen: "\<forall>a \<in> set seen. fst a < t0"
      using less.prems(2) by (auto simp: Cons x)
    have len: "length rest' < length rest"
      by (simp add: Cons rest'_def length_dropWhile_le less_Suc_eq_le)
    have sorted': "sorted (map fst rest')"
      using less.prems(1) unfolding split by (simp add: sorted_append)
    have sep: "\<forall>a \<in> set (g @ seen). \<forall>b \<in> set rest'. fst a < fst b"
      using g r' seen by fastforce
    have group: "length (filter (\<lambda>a. correct_pair a b) (seen @ rest)) = fst (rank (map snd seen) (snd b))"
      "length (filter (\<lambda>a. tied_pair a b) (seen @ rest)) = snd (rank (map snd seen) (snd b))"
      "length (filter (\<lambda>a. ordered_pair a b) (seen @ rest)) = length seen"
      if "b \<in> set g" for b
    proof -
      have b: "fst b = t0" using g that by simp
      have none: "filter (\<lambda>a. fst a < t0 \<and> Q a) rest = []" for Q
        unfolding split using g r' by (auto simp: filter_empty_conv)
      have all: "filter (\<lambda>a. fst a < t0 \<and> Q a) seen = filter Q seen" for Q
        using seen by (auto intro: filter_cong)
      show "length (filter (\<lambda>a. correct_pair a b) (seen @ rest)) = fst (rank (map snd seen) (snd b))"
        unfolding correct_pair_def b filter_append none all
        by (simp add: rank_def filter_map comp_def)
      show "length (filter (\<lambda>a. tied_pair a b) (seen @ rest)) = snd (rank (map snd seen) (snd b))"
        unfolding tied_pair_def b filter_append none all
        by (simp add: rank_def filter_map comp_def)
      have "filter (\<lambda>a. fst a < t0) rest = []" "filter (\<lambda>a. fst a < t0) seen = seen"
        using none [of "\<lambda>a. True"] all [of "\<lambda>a. True"] by simp_all
      then show "length (filter (\<lambda>a. ordered_pair a b) (seen @ rest)) = length seen"
        unfolding ordered_pair_def b filter_append by simp
    qed
    have cg: "count_pairs correct_pair (seen @ rest) g
        = sum_list (map (\<lambda>(t', p'). fst (rank (map snd seen) p')) g)"
      "count_pairs tied_pair (seen @ rest) g
        = sum_list (map (\<lambda>(t', p'). snd (rank (map snd seen) p')) g)"
      "count_pairs ordered_pair (seen @ rest) g = length seen * length g"
      unfolding count_pairs_def
      using group by (simp_all add: case_prod_unfold sum_list_triv cong: map_cong)
    have perm: "mset ((g @ seen) @ rest') = mset (seen @ rest)"
      by (simp add: split)
    have IH: "concordance_loop rest' (map snd (g @ seen)) (c', t', p') =
       (c' + count_pairs correct_pair (seen @ rest) rest',
        t' + count_pairs tied_pair (seen @ rest) rest',
        p' + count_pairs ordered_pair (seen @ rest) rest')" for c' t' p'
      using less.hyps [OF len sorted' sep, of c' t' p']
      by (simp only: count_pairs_mset [OF perm refl])
    have "concordance_loop rest (map snd seen) (c, t, p) =
        concordance_loop rest' (map snd (g @ seen))
          (c + sum_list (map (\<lambda>(t', p'). fst (rank (map snd seen) p')) g),
           t + sum_list (map (\<lambda>(t', p'). snd (rank (map snd seen) p')) g),
           p + length (map snd seen) * length g)"
      unfolding Cons x by (simp add: g_def rest'_def Let_def)
    also have "\<dots> = (c + count_pairs correct_pair (seen @ rest) rest,
      t + count_pairs tied_pair (seen @ rest) rest,
      p + count_pairs ordered_pair (seen @ rest) rest)"
      unfolding IH by (simp add: split [symmetric] cg [symmetric] count_pairs_append [symmetric])
    finally show ?thesis .
  qed
qed

lemma concordance_loop_sorted:
  "concordance_loop (sort_key fst xs) [] (0, 0, 0) =
     (count_pairs correct_pair xs xs, count_pairs tied_pair xs xs, count_pairs ordered_pair xs xs)"
proof -
  have "concordance_loop (sort_key fst xs) (map snd ([] :: (real \<times> real) list)) (0, 0, 0) =
     (0 + count_pairs correct_pair ([] @ sort_key fst xs) (sort_key fst xs),
      0 + count_pairs tied_pair ([] @ sort_key fst xs) (sort_key fst xs),
      0 + count_pairs ordered_pair ([] @ sort_key fst xs) (sort_key fst xs))"
    by (rule concordance_loop_counts) simp_all
  moreover have "count_pairs R (sort_key fst xs) (sort_key fst xs) = count_pairs R xs xs" for R
    by (rule count_pairs_mset) simp_all
  ultimately show ?thesis by simp
qed

lemma sum_list_swap:
  fixes f :: "'a \<Rightarrow> 'b \<Rightarrow> real"
  shows "(\<Sum>a\<leftarrow>xs. \<Sum>b\<leftarrow>ys. f a b) = (\<Sum>b\<leftarrow>ys. \<Sum>a\<leftarrow>xs. f a b)"
  by (induction xs) (simp_all add: sum_list_addf)

lemma real_length_filter:
  "real (length (filter P xs)) = (\<Sum>a\<leftarrow>xs. if P a then 1 else 0)"
  by (induction xs) simp_all

lemma real_count_pairs:
  "real (count_pairs R as bs) = (\<Sum>b\<leftarrow>bs. \<Sum>a\<leftarrow>as. if R a b then 1 else 0)"
  unfolding count_pairs_def
  by (induction bs) (simp_all add: real_length_filter)

lemma real_count_pairs_swapped:
  "real (count_pairs R as bs) = (\<Sum>a\<leftarrow>as. \<Sum>b\<leftarrow>bs. if R a b then 1 else 0)"
  unfolding real_count_pairs by (rule sum_list_swap)

lemma pair_credit_decomp:
  "(if fst a \<noteq> fst b then pair_credit a b else 0) =
     (if correct_pair a b then 1 else 0) + (if correct_pair b a then 1 else 0) +
     (1 / 2) * (if tied_pair a b then 1 else 0) + (1 / 2) * (if tied_pair b a then 1 else 0)"
  by (auto simp: pair_credit_def correct_pair_def tied_pair_def)

lemma comparable_decomp:
  "(if fst a \<noteq> fst b then 1 else 0 :: real) =
     (if ordered_pair a b then 1 else 0) + (if ordered_pair b a then 1 else 0)"
  by (auto simp: ordered_pair_def)

lemma concordant_numerator:
  "(\<Sum>a\<leftarrow>xs. \<Sum>b\<leftarrow>xs. if fst a \<noteq> fst b then pair_credit a b else 0) =
     2 * real (count_pairs correct_pair xs xs) + real (count_pairs tied_pair xs xs)"
proof -
  have eq: "(\<Sum>a\<leftarrow>xs. \<Sum>b\<leftarrow>xs. if fst a \<noteq> fst b then pair_credit a b else 0) =
      (\<Sum>a\<leftarrow>xs. \<Sum>b\<leftarrow>xs. if correct_pair a b then 1 else 0) +
      (\<Sum>a\<leftarrow>xs. \<Sum>b\<leftarrow>xs. if correct_pair b a then 1 else 0) +
      (1 / 2) * (\<Sum>a\<leftarrow>xs. \<Sum>b\<leftarrow>xs. if tied_pair a b then 1 else 0) +
      (1 / 2) * (\<Sum>a\<leftarrow>xs. \<Sum>b\<leftarrow>xs. if tied_pair b a then 1 else 0)"
    unfolding pair_credit_decomp
    by (simp only: sum_list_addf sum_list_const_mult)
  have c1: "(\<Sum>a\<leftarrow>xs. \<Sum>b\<leftarrow>xs. if correct_pair a b then 1 else 0)
      = real (count_pairs correct_pair xs xs)"
    by (rule real_count_pairs_swapped [symmetric])
  have c2: "(\<Sum>a\<leftarrow>xs. \<Sum>b\<leftarrow>xs. if correct_pair b a then 1 else 0)
      = real (count_pairs correct_pair xs xs)"
    by (rule real_count_pairs [symmetric])
  have t1: "(\<Sum>a\<leftarrow>xs. \<Sum>b\<leftarrow>xs. if tied_pair a b then 1 else 0)
      = real (count_pairs tied_pair xs xs)"
    by (rule real_count_pairs_swapped [symmetric])
  have t2: "(\<Sum>a\<leftarrow>xs. \<Sum>b\<leftarrow>xs. if tied_pair b a then 1 else 0)
      = real (count_pairs tied_pair xs xs)"
    by (rule real_count_pairs [symmetric])
  show ?thesis unfolding eq c1 c2 t1 t2 by simp
qed

lemma concordant_denominator:
  "(\<Sum>a\<leftarrow>xs. \<Sum>b\<leftarrow>xs. if fst a \<noteq> fst b then 1 else 0 :: real) =
     2 * real (count_pairs ordered_pair xs xs)"
proof -
  have eq: "(\<Sum>a\<leftarrow>xs. \<Sum>b\<leftarrow>xs. if fst a \<noteq> fst b then 1 else 0 :: real) =
      (\<Sum>a\<leftarrow>xs. \<Sum>b\<leftarrow>xs. if ordered_pair a b then 1 else 0) +
      (\<Sum>a\<leftarrow>xs. \<Sum>b\<leftarrow>xs. if ordered_pair b a then 1 else 0)"
    unfolding comparable_decomp by (simp only: sum_list_addf)
  have p1: "(\<Sum>a\<leftarrow>xs. \<Sum>b\<leftarrow>xs. if ordered_pair a b then 1 else 0)
      = real (count_pairs ordered_pair xs xs)"
    by (rule real_count_pairs_swapped [symmetric])
  have p2: "(\<Sum>a\<leftarrow>xs. \<Sum>b\<leftarrow>xs. if ordered_pair b a then 1 else 0)
      = real (count_pairs ordered_pair xs xs)"
    by (rule real_count_pairs [symmetric])
  show ?thesis unfolding eq p1 p2 by simp
qed

lemma concordance_index_fraction:
  assumes "concordance_index y_true y_pred = Inr v"
  shows "v = Num (concordant_fraction y_true y_pred)"
proof -
  let ?xs = "zip y_true y_pred"
  let ?C = "count_pairs correct_pair ?xs ?xs"
  let ?T = "count_pairs tied_pair ?xs ?xs"
  let ?P = "count_pairs ordered_pair ?xs ?xs"
  from assms have P: "?P \<noteq> 0" and v: "v = Num ((real ?C + real ?T / 2) / real ?P)"
    by (auto simp: concordance_index_def concordance_loop_sorted split: if_splits)
  have "concordant_fraction y_true y_pred = (2 * real ?C + real ?T) / (2 * real ?P)"
    by (simp add: concordant_fraction_def Let_def concordant_numerator concordant_denominator)
  also have "\<dots> = (real ?C + real ?T / 2) / real ?P"
    using P by (simp add: field_simps)
  finally show ?thesis using v by simp
qed

lemma batch_norm_forward_eval:
  "batch_norm_forward False bn X = Inr (Y, bn') \<Longrightarrow> bn' = bn"
  by (auto simp: batch_norm_forward_def split: if_splits)

lemma forward_eval_model:
  assumes "\<not> training m" "forward m X = Inr (Y, m')"
  shows "m' = m"
proof -
  from assms(2) obtain a1 where a1: "linear_forward (fc1 m) X = Inr a1"
    unfolding forward_def by (cases "linear_forward (fc1 m) X") simp_all
  from assms obtain n1 b1 where n1: "batch_norm_forward False (bn1 m) a1 = Inr (n1, b1)"
    unfolding forward_def a1
    by (cases "batch_norm_forward False (bn1 m) a1") auto
  from assms(2) obtain a2 where a2: "linear_forward (fc2 m) (relu n1) = Inr a2"
    unfolding forward_def a1 using n1 assms(1)
    by (cases "linear_forward (fc2 m) (relu n1)") simp_all
  from assms obtain n2 b2 where n2: "batch_norm_forward False (bn2 m) a2 = Inr (n2, b2)"
    unfolding forward_def a1 using n1 a2
    by (cases "batch_norm_forward False (bn2 m) a2") auto
  from assms(2) obtain a3 where a3: "linear_forward (fc3 m) (relu n2) = Inr a3"
    unfolding forward_def a1 using n1 a2 n2 assms(1)
    by (cases "linear_forward (fc3 m) (relu n2)") simp_all
  from assms obtain n3 b3 where n3: "batch_norm_forward False (bn3 m) a3 = Inr (n3, b3)"
    unfolding forward_def a1 using n1 a2 n2 a3
    by (cases "batch_norm_forward False (bn3 m) a3") auto
  from assms(2) have "m' = m\<lparr>bn1 := b1, bn2 := b2, bn3 := b3\<rparr>"
    unfolding forward_def a1 using n1 a2 n2 a3 n3 assms(1)
    by (cases "linear_forward (fc4 m) (relu n3)") simp_all
  moreover have "b1 = bn1 m" "b2 = bn2 m" "b3 = bn3 m"
    using n1 n2 n3 by (auto dest: batch_norm_forward_eval)
  ultimately show ?thesis by simp
qed

lemma collect_true:
  "collect m loader yt yp = Inr (y_true, y_pred) \<Longrightarrow> y_true = yt @ concat (map snd loader)"
proof (induction m loader yt yp rule: collect.induct)
  case (1 model y_true y_pred)
  then show ?case by simp
next
  case (2 model X_batch y_batch batches yt yp)
  from "2.prems" obtain outputs model' where
    f: "forward model X_batch = Inr (outputs, model')"
    by (cases "forward model X_batch") auto
  from "2.prems" f obtain vs where s: "squeeze outputs = Vector vs"
    by (cases "squeeze outputs") simp_all
  from "2.prems" f s
  have "collect model' batches (yt @ y_batch) (yp @ vs) = Inr (y_true, y_pred)"
    by simp
  from "2.IH" [OF f refl s this] show ?case by simp
qed

section \<open>The example module\<close>

lemma dot_replicate_zero: "dot (replicate n 0) x = 0"
proof (induction n arbitrary: x)
  case 0
  then show ?case by (simp add: dot_def)
next
  case (Suc n)
  then show ?case by (cases x) (simp_all add: dot_def)
qed

lemma dot_unit: "dot (1 # replicate n 0) (v # vs) = v"
  using dot_replicate_zero [of n vs] by (simp add: dot_def)

lemma linear_row_select_first:
  "linear_row (select_first (Suc k) (Suc j)) (v # vs) = v # replicate j 0"
proof -
  have "map2 (\<lambda>w b. dot w (v # vs) + b) (replicate j (replicate (Suc k) 0)) (replicate j 0)
      = replicate j 0"
    using dot_replicate_zero [of "Suc k" "v # vs"]
    by (simp only: zip_replicate map_replicate split_conv) simp
  then show ?thesis
    using dot_unit [of k v vs]
    by (simp add: linear_row_def select_first_def del: replicate_Suc) (simp add: dot_unit)
qed

lemma normalize_row_identity:
  "length x = n \<Longrightarrow>
   normalize_row (replicate n 0) (replicate n (1 - eps)) (replicate n 1) (replicate n 0) x = x"
proof (induction x arbitrary: n)
  case Nil
  then show ?case by (simp add: normalize_row_def)
next
  case (Cons a x)
  then obtain k where n: "n = Suc k" "length x = k" by (cases n) auto
  from Cons.IH [OF n(2)] show ?case
    unfolding n by (simp add: normalize_row_def)
qed

lemma batch_norm_identity:
  assumes "\<forall>x \<in> set X. length x = n"
  shows "batch_norm_forward False (identity_norm n) X = Inr (X, identity_norm n)"
proof -
  have "map (normalize_row (replicate n 0) (replicate n (1 - eps)) (replicate n 1) (replicate n 0)) X = X"
    using assms by (simp add: normalize_row_identity map_idI)
  then show ?thesis
    using assms by (simp add: batch_norm_forward_def identity_norm_def)
qed

text \<open>Rows that hold a non-negative value followed by zeros.\<close>

lemma select_first_forward:
  assumes "\<forall>x \<in> set X. \<exists>v. x = v # replicate k 0"
  shows "linear_forward (select_first (Suc k) (Suc j)) X = Inr (map (\<lambda>x. hd x # replicate j 0) X)"
proof -
  have "\<forall>x \<in> set X. length x = Suc k" using assms by auto
  moreover have "linear_row (select_first (Suc k) (Suc j)) x = hd x # replicate j 0"
    if "x \<in> set X" for x
    using assms that linear_row_select_first by fastforce
  ultimately show ?thesis
    by (simp add: linear_forward_def select_first_def)
qed

lemma relu_nonneg_rows:
  assumes "\<forall>x \<in> set X. \<exists>v \<ge> 0. x = v # replicate k 0"
  shows "relu X = X"
proof -
  have "map (\<lambda>v. max 0 v) x = x" if "x \<in> set X" for x
    using assms that by (fastforce simp: max_def)
  then show ?thesis by (simp add: relu_def map_idI)
qed

lemma layer_first_feature:
  fixes j :: nat
  assumes "\<forall>x \<in> set X. \<exists>v \<ge> 0. x = v # replicate k 0"
  defines "Y \<equiv> map (\<lambda>x. hd x # replicate j 0) X"
  shows "linear_forward (select_first (Suc k) (Suc j)) X = Inr Y"
    and "batch_norm_forward False (identity_norm (Suc j)) Y = Inr (Y, identity_norm (Suc j))"
    and "relu Y = Y" and "map hd Y = map hd X"
    and "\<forall>y \<in> set Y. \<exists>v \<ge> 0. y = v # replicate j 0"
proof -
  have "\<forall>x \<in> set X. \<exists>v. x = v # replicate k 0" using assms(1) by blast
  then show "linear_forward (select_first (Suc k) (Suc j)) X = Inr Y"
    unfolding Y_def by (rule select_first_forward)
  show rows: "\<forall>y \<in> set Y. \<exists>v \<ge> 0. y = v # replicate j 0"
    using assms(1) unfolding Y_def by fastforce
  then have "\<forall>y \<in> set Y. length y = Suc j" by auto
  then show "batch_norm_forward False (identity_norm (Suc j)) Y = Inr (Y, identity_norm (Suc j))"
    by (rule batch_norm_identity)
  show "relu Y = Y" using rows by (rule relu_nonneg_rows)
  show "map hd Y = map hd X" by (simp add: Y_def comp_def)
qed

lemma forward_first_feature:
  assumes "\<forall>x \<in> set X. \<exists>v \<ge> 0. x = [v]"
  shows "forward (eval_mode first_feature_model) X = Inr (X, eval_mode first_feature_model)"
proof -
  let ?m = "eval_mode first_feature_model"
  have m: "fc1 ?m = select_first (Suc 0) (Suc 511)" "bn1 ?m = identity_norm (Suc 511)"
    "fc2 ?m = select_first (Suc 511) (Suc 255)" "bn2 ?m = identity_norm (Suc 255)"
    "fc3 ?m = select_first (Suc 255) (Suc 127)" "bn3 ?m = identity_norm (Suc 127)"
    "fc4 ?m = select_first (Suc 127) (Suc 0)" "training ?m = False"
    by (simp_all add: eval_mode_def first_feature_model_def)
  define Y1 where "Y1 = map (\<lambda>x. hd x # replicate 511 0) X"
  define Y2 where "Y2 = map (\<lambda>x. hd x # replicate 255 0) Y1"
  define Y3 where "Y3 = map (\<lambda>x. hd x # replicate 127 0) Y2"
  define Y4 where "Y4 = map (\<lambda>x. hd x # replicate 0 0) Y3"
  have r0: "\<forall>x \<in> set X. \<exists>v \<ge> 0. x = v # replicate 0 0" using assms by simp
  note 1 = layer_first_feature [OF r0, of 511, folded Y1_def]
  note 2 = layer_first_feature [OF 1(5), of 255, folded Y2_def]
  note 3 = layer_first_feature [OF 2(5), of 127, folded Y3_def]
  note 4 = layer_first_feature [OF 3(5), of 0, folded Y4_def]
  have hd4: "map hd Y4 = map hd X"
    unfolding 4(4) 3(4) 2(4) 1(4) ..
  have "length (map hd Y4) = length (map hd X)" by (simp only: hd4)
  then have len: "length Y4 = length X" by simp
  have "Y4 = X"
  proof (rule nth_equalityI [OF len])
    fix i assume i: "i < length Y4"
    have "map hd Y4 ! i = map hd X ! i" by (simp only: hd4)
    then have h: "hd (Y4 ! i) = hd (X ! i)" using i len by simp
    have "Y4 ! i \<in> set Y4" using i by simp
    with 4(5) obtain v where v: "Y4 ! i = [v]" by fastforce
    have "X ! i \<in> set X" using i len by simp
    with assms obtain w where w: "X ! i = [w]" by blast
    from h v w show "Y4 ! i = X ! i" by simp
  qed
  with 4(1) have l4: "linear_forward (select_first (Suc 127) (Suc 0)) Y3 = Inr X"
    by (simp only:)
  have same: "?m\<lparr>bn1 := identity_norm (Suc 511), bn2 := identity_norm (Suc 255),
      bn3 := identity_norm (Suc 127)\<rparr> = ?m"
    by (simp add: eval_mode_def first_feature_model_def)
  show ?thesis
    by (simp only: forward_def m 1(1) 1(2) 1(3) 2(1) 2(2) 2(3) 3(1) 3(2) 3(3) l4
        sum.case prod.case same)
qed

section \<open>Perfect predictions\<close>

lemma collect_batch:
  assumes "\<forall>v \<in> set ps. 0 \<le> v" "length ps \<noteq> 1"
  shows "collect (eval_mode first_feature_model) [(map (\<lambda>v. [v]) ps, ys)] [] [] = Inr (ys, ps)"
proof -
  have "\<forall>x \<in> set (map (\<lambda>v. [v]) ps). \<exists>v \<ge> 0. x = [v]" using assms(1) by auto
  then have f: "forward (eval_mode first_feature_model) (map (\<lambda>v. [v]) ps)
      = Inr (map (\<lambda>v. [v]) ps, eval_mode first_feature_model)"
    by (rule forward_first_feature)
  have s: "squeeze (map (\<lambda>v. [v]) ps) = Vector ps"
    using assms(2) by (simp add: squeeze_def comp_def)
  show ?thesis by (simp add: f s)
qed

lemma collect_single_row:
  assumes "0 \<le> v"
  shows "collect (eval_mode first_feature_model) [([[v]], [v])] [] [] = Inl TypeError"
proof -
  have "\<forall>x \<in> set [[v]]. \<exists>v \<ge> 0. x = [v]" using assms by auto
  then have f: "forward (eval_mode first_feature_model) [[v]]
      = Inr ([[v]], eval_mode first_feature_model)"
    by (rule forward_first_feature)
  show ?thesis by (simp add: f squeeze_def)
qed

lemma eval_mode_idem: "eval_mode (eval_mode m) = eval_mode m"
  by (simp add: eval_mode_def)





lemma count_pairs_pos:
  assumes "a \<in> set as" "b \<in> set bs" "R a b"
  shows "0 < count_pairs R as bs"
proof -
  have "filter (\<lambda>a. R a b) as \<noteq> []"
    using assms(1,3) by (auto simp: filter_empty_conv)
  then have "0 < length (filter (\<lambda>a. R a b) as)" by simp
  moreover have "length (filter (\<lambda>a. R a b) as) \<in> set (map (\<lambda>b. length (filter (\<lambda>a. R a b) as)) bs)"
    using assms(2) by auto
  moreover have "length (filter (\<lambda>a. R a b) as)
      \<le> sum_list (map (\<lambda>b. length (filter (\<lambda>a. R a b) as)) bs)"
    using assms(2) by (intro member_le_sum_list) auto
  ultimately have "0 < sum_list (map (\<lambda>b. length (filter (\<lambda>a. R a b) as)) bs)"
    by linarith
  then show ?thesis by (simp only: count_pairs_def)
qed




section \<open>The precision-recall curve and its area\<close>

lemma sum_list_diff: "xs \<noteq> [] \<Longrightarrow> sum_list (diff xs) = last xs - hd xs"
  by (induction xs rule: diff.induct) simp_all

lemma diff_nonincreasing:
  "successively (\<lambda>a b. b \<le> a) xs \<Longrightarrow> \<forall>d \<in> set (diff xs). d \<le> 0"
  by (induction xs rule: diff.induct) simp_all

lemma diff_some_negative:
  assumes "xs \<noteq> []" "last xs < hd xs"
  shows "\<exists>d \<in> set (diff xs). d < 0"
proof (rule ccontr)
  assume "\<not> (\<exists>d \<in> set (diff xs). d < 0)"
  then have "\<forall>d \<in> set (diff xs). 0 \<le> d" by auto
  then have "0 \<le> sum_list (diff xs)" by (intro sum_list_nonneg) auto
  with sum_list_diff [OF assms(1)] assms(2) show False by simp
qed

lemma length_diff [simp]: "length (diff xs) = length xs - 1"
  by (induction xs rule: diff.induct) simp_all

text \<open>A curve on whose every segment either the abscissa stays or the ordinate is 1 at both ends.\<close>

lemma trapezoid_chain:
  assumes "length ys = length xs" "xs \<noteq> []"
    and "successively (\<lambda>(y0, x0) (y1, x1). x0 = x1 \<or> (y0 = 1 \<and> y1 = 1)) (zip ys xs)"
  shows "trapezoid ys xs = last xs - hd xs"
  using assms
proof (induction ys xs rule: trapezoid.induct)
  case (1 y0 y1 ys x0 x1 xs)
  then have "trapezoid (y1 # ys) (x1 # xs) = last (x1 # xs) - x1" by simp
  moreover from "1.prems"(3) have "x0 = x1 \<or> (y0 = 1 \<and> y1 = 1)" by simp
  ultimately show ?case by (auto simp: field_simps)
qed (auto simp: length_Suc_conv Suc_length_conv)

lemma auc_chain:
  assumes len: "length ys = length xs" and two: "2 \<le> length xs"
    and chain: "successively (\<lambda>(y0, x0) (y1, x1). x0 = x1 \<or> (y0 = 1 \<and> y1 = 1)) (zip ys xs)"
    and mono: "successively (\<lambda>a b. b \<le> a) xs"
    and ends: "hd xs = 1" "last xs = 0"
  shows "auc xs ys = Inr (Num 1)"
proof -
  have ne: "xs \<noteq> []" using two by auto
  have t: "trapezoid ys xs = - 1"
    using trapezoid_chain [OF len ne chain] ends by simp
  have neg: "\<exists>d \<in> set (diff xs). d < 0"
    using ne ends by (intro diff_some_negative) simp_all
  have all: "\<forall>d \<in> set (diff xs). d \<le> 0" using mono by (rule diff_nonincreasing)
  show ?thesis
    using len two neg all t by (simp add: auc_def)
qed

lemma trapezoid_no_positive:
  "0 < k \<Longrightarrow> trapezoid (replicate k 0 @ [1]) (replicate k 1 @ [0]) = - 1 / 2"
proof (induction k)
  case 0
  then show ?case by simp
next
  case (Suc k)
  then show ?case by (cases k) simp_all
qed

lemma diff_no_positive:
  "0 < k \<Longrightarrow> set (diff (replicate k 1 @ [0])) \<subseteq> {0, - 1} \<and> - 1 \<in> set (diff (replicate k 1 @ [0]))"
proof (induction k)
  case 0
  then show ?case by simp
next
  case (Suc k)
  then show ?case by (cases k) auto
qed

lemma auc_no_positive:
  assumes "0 < k"
  shows "auc (replicate k 1 @ [0]) (replicate k 0 @ [1]) = Inr (Num (1 / 2))"
proof -
  have d: "set (diff (replicate k 1 @ [0])) \<subseteq> {0, - 1}" "- 1 \<in> set (diff (replicate k 1 @ [0]))"
    using diff_no_positive [OF assms] by simp_all
  have neg: "\<exists>d \<in> set (diff (replicate k 1 @ [0])). d < 0"
    using d(2) by (intro bexI [of _ "- 1"]) simp_all
  have all: "\<forall>d \<in> set (diff (replicate k 1 @ [0])). d \<le> 0"
    using d(1) by auto
  show ?thesis
    unfolding auc_def using assms neg all trapezoid_no_positive [OF assms]
    by (simp del: replicate.simps)
qed

lemma zip_map_same: "zip (map f xs) (map g xs) = map (\<lambda>x. (f x, g x)) xs"
  by (induction xs) simp_all

lemma map2_map_right: "map2 f xs (map g xs) = map (\<lambda>x. f x (g x)) xs"
  by (induction xs) simp_all

lemma successively_around:
  fixes xs :: "nat list"
  shows "sorted_wrt (<) xs \<Longrightarrow> c \<in> set xs \<or> (\<forall>x \<in> set xs. c \<le> x) \<Longrightarrow>
    successively (\<lambda>i j. i < j \<and> (j \<le> c \<or> c \<le> i)) xs"
proof (induction xs rule: induct_list012)
  case (3 a b rest)
  from "3.prems"(1) have ab: "a < b" and srt: "sorted_wrt (<) (b # rest)"
    and above: "\<forall>x \<in> set rest. b < x" by auto
  have "c \<in> set (b # rest) \<or> (\<forall>x \<in> set (b # rest). c \<le> x)"
    using "3.prems"(2) ab above by auto
  with srt have "successively (\<lambda>i j. i < j \<and> (j \<le> c \<or> c \<le> i)) (b # rest)"
    by (rule "3.IH"(2))
  moreover have "b \<le> c \<or> c \<le> a"
    using "3.prems"(2) ab above by auto
  ultimately show ?case using ab by simp
qed simp_all

lemma sorted_wrt_hd_le:
  fixes xs :: "nat list"
  shows "sorted_wrt (<) xs \<Longrightarrow> c \<in> set xs \<Longrightarrow> hd xs \<le> c"
  by (cases xs) auto

lemma prec_one: "i + 1 \<le> P \<Longrightarrow> real (min (i + 1) P) / (1 + real i) = 1"
proof -
  assume "i + 1 \<le> P"
  then have "min (i + 1) P = i + 1" by (rule min_absorb1)
  moreover have "real (i + 1) = 1 + real i" by simp
  moreover have "(1 + real i) / (1 + real i) = 1" by simp
  ultimately show ?thesis by (simp only:)
qed

lemma rec_same:
  "P \<le> i + 1 \<Longrightarrow> P \<le> j + 1 \<Longrightarrow>
    real (min (j + 1) P) / real P = real (min (i + 1) P) / real P"
  by (simp only: min_absorb2)

lemma prec_or_rec:
  fixes i j :: nat
  assumes "0 < P" and "i < j \<and> (j \<le> P - 1 \<or> P - 1 \<le> i)"
  shows "real (min (j + 1) P) / real P = real (min (i + 1) P) / real P \<or>
   (real (min (j + 1) P) / (1 + real j) = 1 \<and> real (min (i + 1) P) / (1 + real i) = 1)"
proof -
  from assms consider "i + 1 \<le> P" "j + 1 \<le> P" | "P \<le> i + 1" "P \<le> j + 1" by linarith
  then show ?thesis
  proof cases
    case 1
    then show ?thesis by (simp only: prec_one simp_thms)
  next
    case 2
    then show ?thesis using rec_same [OF 2] by (simp only: simp_thms)
  qed
qed

text \<open>
  The curve of labels that are \<open>P\<close> positives followed by negatives only, with a
  threshold at the last positive: the area is 1.
\<close>

lemma curve_separated:
  fixes idxs :: "nat list"
  assumes P: "0 < P" "P \<le> n" and srt: "sorted_wrt (<) idxs" and ne: "idxs \<noteq> []"
    and lst: "last idxs = n - 1" and mem: "P - 1 \<in> set idxs"
  shows "auc (rev (map (\<lambda>i. real (min (i + 1) P) / real P) idxs) @ [0])
             (rev (map (\<lambda>i. real (min (i + 1) P) / (1 + real i)) idxs) @ [1]) = Inr (Num 1)"
proof (rule auc_chain)
  let ?rec = "\<lambda>i. real (min (i + 1) P) / real P"
  let ?prec = "\<lambda>i. real (min (i + 1) P) / (1 + real i)"
  show "length (rev (map ?prec idxs) @ [1]) = length (rev (map ?rec idxs) @ [0])" by simp
  show "2 \<le> length (rev (map ?rec idxs) @ [0])" using ne by (cases idxs) simp_all
  have "min (n - 1 + 1) P = P" using P by simp
  then have "?rec (last idxs) = 1" using P lst by simp
  then show "hd (rev (map ?rec idxs) @ [0]) = 1"
    using ne by (simp add: hd_append hd_rev last_map)
  show "last (rev (map ?rec idxs) @ [0]) = 0" by simp
  have "sorted_wrt (\<lambda>i j. ?rec i \<le> ?rec j) idxs"
    using srt
  proof (rule sorted_wrt_mono_rel [rotated])
    fix i j :: nat
    assume "i < j"
    then have "real (min (i + 1) P) \<le> real (min (j + 1) P)" by simp
    then show "?rec i \<le> ?rec j" by (rule divide_right_mono) simp
  qed
  then have "successively (\<lambda>i j. ?rec i \<le> ?rec j) idxs"
    by (rule successively_if_sorted_wrt)
  then have D: "successively (\<lambda>a b. b \<le> a) (rev (map ?rec idxs))"
    by (simp add: successively_rev successively_map)
  have "0 \<le> ?rec (hd idxs)" by simp
  moreover have "last (rev (map ?rec idxs)) = ?rec (hd idxs)"
    using ne by (simp add: last_rev hd_map)
  ultimately have E: "0 \<le> last (rev (map ?rec idxs))" by (simp only:)
  show "successively (\<lambda>a b. b \<le> a) (rev (map ?rec idxs) @ [0])"
    by (rule successively_append_iff [THEN iffD2]) (use D E in simp)
  have z: "zip (rev (map ?prec idxs) @ [1]) (rev (map ?rec idxs) @ [0]) =
      rev (map (\<lambda>i. (?prec i, ?rec i)) idxs) @ [(1, 0)]"
    by (simp add: zip_rev zip_map_same)
  have "successively (\<lambda>i j. i < j \<and> (j \<le> P - 1 \<or> P - 1 \<le> i)) idxs"
    using srt mem by (intro successively_around) simp_all
  then have A: "successively (\<lambda>i j. ?rec j = ?rec i \<or> (?prec j = 1 \<and> ?prec i = 1)) idxs"
  proof (rule successively_mono)
    fix i j :: nat
    assume "i < j \<and> (j \<le> P - 1 \<or> P - 1 \<le> i)"
    then show "?rec j = ?rec i \<or> (?prec j = 1 \<and> ?prec i = 1)"
      using P(1) by (intro prec_or_rec)
  qed
  have "hd idxs \<le> P - 1" using srt mem by (rule sorted_wrt_hd_le)
  then have "hd idxs + 1 \<le> P" using P by linarith
  then have B: "?prec (hd idxs) = 1" by (rule prec_one)
  have C: "last (rev (map (\<lambda>i. (?prec i, ?rec i)) idxs)) = (?prec (hd idxs), ?rec (hd idxs))"
    using ne by (simp add: last_rev hd_map)
  have F: "successively (\<lambda>(y0, x0) (y1, x1). x0 = x1 \<or> (y0 = 1 \<and> y1 = 1))
      (rev (map (\<lambda>i. (?prec i, ?rec i)) idxs))"
    using A by (simp add: successively_rev successively_map)
  have G: "(\<lambda>(y0, x0) (y1, x1). x0 = x1 \<or> (y0 = 1 \<and> y1 = 1))
      (?prec (hd idxs), ?rec (hd idxs)) (1, 0)"
    by (simp only: prod.case B simp_thms)
  show "successively (\<lambda>(y0, x0) (y1, x1). x0 = x1 \<or> (y0 = 1 \<and> y1 = 1))
          (zip (rev (map ?prec idxs) @ [1]) (rev (map ?rec idxs) @ [0]))"
    unfolding z
    by (rule successively_append_iff [THEN iffD2], intro conjI disjI2)
      (simp_all only: F successively.simps C list.sel G)
qed

lemma fps_plus_tps:
  "map2 (+) (map t xs) (map (\<lambda>i. 1 + real i - t i) xs) = map (\<lambda>i. 1 + real i) xs"
  by (induction xs) simp_all

lemma precision_positions:
  "map2 (\<lambda>tp p. if p \<noteq> 0 then tp / p else 0) (map t xs) (map (\<lambda>i. 1 + real i) xs)
     = map (\<lambda>i. t i / (1 + real i)) xs"
proof (induction xs)
  case Nil
  then show ?case by simp
next
  case (Cons a xs)
  have "1 + real a \<noteq> 0" by linarith
  with Cons show ?case by simp
qed

lemma precision_recall_curve_form:
  assumes "length L = length s" "L \<noteq> []"
    and "desc = rev (sort_key snd (zip L s))" and "yt = map fst desc" and "ys = map snd desc"
    and "idxs = filter (\<lambda>i. ys ! i \<noteq> ys ! (i + 1)) [0..<length ys - 1] @ [length yt - 1]"
    and "tp = (\<lambda>i. sum_list (map (\<lambda>b. if b then 1 else 0) (take (i + 1) yt)))"
  shows "precision_recall_curve L s =
     Inr (rev (map (\<lambda>i. tp i / (1 + real i)) idxs) @ [1],
          rev (if tp (length yt - 1) = 0 then map (\<lambda>i. 1) idxs
               else map (\<lambda>i. tp i / tp (length yt - 1)) idxs) @ [0],
          rev (map (\<lambda>i. ys ! i) idxs))"
proof -
  have b: "binary_clf_curve L s =
      (map (\<lambda>i. 1 + real i - tp i) idxs, map tp idxs, map (\<lambda>i. ys ! i) idxs)"
    unfolding binary_clf_curve_def assms(3-7) by (simp only: Let_def map2_map_right)
  have l: "last (map tp idxs) = tp (length yt - 1)"
    by (simp add: assms(6))
  have "precision_recall_curve L s =
     Inr (rev (map (\<lambda>i. tp i / (1 + real i)) idxs) @ [1],
          rev (if tp (length yt - 1) = 0 then map (\<lambda>tp. 1) (map tp idxs)
               else map (\<lambda>v. v / tp (length yt - 1)) (map tp idxs)) @ [0],
          rev (map (\<lambda>i. ys ! i) idxs))"
    unfolding precision_recall_curve_def
    using assms(1,2)
    by (simp only: b prod.case Let_def fps_plus_tps precision_positions l simp_thms if_False)
  then show ?thesis by (simp only: map_map comp_def)
qed

lemma threshold_idxs_facts:
  fixes idxs :: "nat list"
  assumes "idxs = filter D [0..<n - 1] @ [n - 1]"
  shows "sorted_wrt (<) idxs" "idxs \<noteq> []" "last idxs = n - 1" "0 < length idxs"
proof -
  have "sorted_wrt (<) (filter D [0..<n - 1])"
    by (rule sorted_wrt_filter) (simp add: sorted_wrt_upt)
  then show "sorted_wrt (<) idxs"
    unfolding assms by (simp add: sorted_wrt_append)
  show "idxs \<noteq> []" "last idxs = n - 1" "0 < length idxs" unfolding assms by simp_all
qed

lemma desc_facts:
  assumes "desc = rev (sort_key snd zs)"
  shows "length desc = length zs" "set desc = set zs" "sorted (rev (map snd desc))"
proof -
  show "length desc = length zs" "set desc = set zs" unfolding assms by simp_all
  have "rev (map snd desc) = map snd (sort_key snd zs)"
    unfolding assms by (simp add: rev_map)
  then show "sorted (rev (map snd desc))" by (simp only: sorted_sort_key)
qed

lemma tp_no_positive:
  "\<forall>b \<in> set yt. \<not> b \<Longrightarrow> sum_list (map (\<lambda>b. if b then 1 else 0) (take m yt)) = (0 :: real)"
proof -
  assume a: "\<forall>b \<in> set yt. \<not> b"
  have "map (\<lambda>b. if b then 1 else (0 :: real)) (take m yt) = map (\<lambda>b. 0) (take m yt)"
    using a by (intro map_cong refl) (auto dest: in_set_takeD)
  then have "sum_list (map (\<lambda>b. if b then 1 else (0 :: real)) (take m yt))
      = sum_list (map (\<lambda>b. 0) (take m yt))"
    by (rule arg_cong)
  then show ?thesis by simp
qed

lemma tp_replicate:
  "sum_list (map (\<lambda>b. if b then 1 else 0) (take m (replicate P True @ replicate Q False)))
     = real (min m P)"
  by (simp add: min_def sum_list_replicate)

text \<open>With no positive label the area under the curve is one half.\<close>

lemma aupr_no_positive:
  assumes len: "length L = length s" and ne: "L \<noteq> []" and neg: "\<forall>b \<in> set L. \<not> b"
  shows "\<exists>p r t. precision_recall_curve L s = Inr (p, r, t) \<and> auc r p = Inr (Num (1 / 2))"
proof -
  define desc where "desc = rev (sort_key snd (zip L s))"
  define yt where "yt = map fst desc"
  define ys where "ys = map snd desc"
  define idxs where
    "idxs = filter (\<lambda>i. ys ! i \<noteq> ys ! (i + 1)) [0..<length ys - 1] @ [length yt - 1]"
  define tp :: "nat \<Rightarrow> real" where
    "tp = (\<lambda>i. sum_list (map (\<lambda>b. if b then 1 else 0) (take (i + 1) yt)))"
  note form = precision_recall_curve_form [OF len ne desc_def yt_def ys_def idxs_def tp_def]
  have "set desc = set (zip L s)" using desc_def by (rule desc_facts)
  then have "\<forall>b \<in> set yt. \<not> b"
    using neg unfolding yt_def by (auto dest: set_zip_leftD)
  then have tp0: "tp i = 0" for i unfolding tp_def by (rule tp_no_positive)
  have lys: "length ys = length yt" by (simp add: ys_def yt_def)
  have k: "0 < length idxs"
    using idxs_def unfolding lys by (rule threshold_idxs_facts)
  have "precision_recall_curve L s =
      Inr (replicate (length idxs) 0 @ [1], replicate (length idxs) 1 @ [0], rev (map (\<lambda>i. ys ! i) idxs))"
    unfolding form by (simp add: tp0 map_replicate_const)
  moreover have "auc (replicate (length idxs) 1 @ [0]) (replicate (length idxs) 0 @ [1]) = Inr (Num (1 / 2))"
    using k by (rule auc_no_positive)
  ultimately show ?thesis by blast
qed

text \<open>
  Samples sorted by decreasing score whose every positive is scored above every negative:
  the positives come first.
\<close>

lemma separated_labels:
  fixes zs :: "(bool \<times> real) list"
  assumes "sorted (rev (map snd zs))"
    and "\<forall>a \<in> set zs. \<forall>b \<in> set zs. fst a \<and> \<not> fst b \<longrightarrow> snd b < snd a"
  shows "map fst zs = replicate (length (filter fst zs)) True
           @ replicate (length zs - length (filter fst zs)) False"
  using assms
proof (induction zs)
  case Nil
  then show ?case by simp
next
  case (Cons z zs)
  from Cons.prems(1) have srt: "sorted (rev (map snd zs))" and le: "\<forall>x \<in> set zs. snd x \<le> snd z"
    by (auto simp: sorted_append)
  from Cons.prems(2)
  have sep: "\<forall>a \<in> set zs. \<forall>b \<in> set zs. fst a \<and> \<not> fst b \<longrightarrow> snd b < snd a" by simp
  note IH = Cons.IH [OF srt sep]
  show ?case
  proof (cases "fst z")
    case True
    have "length (filter fst zs) \<le> length zs" by (rule length_filter_le)
    then have "Suc (length zs) - Suc (length (filter fst zs)) = length zs - length (filter fst zs)"
      by simp
    with True IH show ?thesis by simp
  next
    case False
    have none: "\<not> fst x" if "x \<in> set zs" for x
    proof
      assume "fst x"
      with Cons.prems(2) False that have "snd z < snd x" by simp
      with le that show False by fastforce
    qed
    then have f: "filter fst zs = []" by (auto simp: filter_empty_conv)
    have "\<forall>y \<in> set (map fst zs). y = False" using none by auto
    then have "replicate (length (map fst zs)) False = map fst zs"
      by (rule replicate_length_same)
    then have "map fst zs = replicate (length zs) False" by simp
    with False f show ?thesis by simp
  qed
qed

lemma nth_replicate_append:
  "i < P \<Longrightarrow> (replicate P a @ xs) ! i = a" "P \<le> i \<Longrightarrow> i < P + Q \<Longrightarrow> (replicate P a @ replicate Q b) ! i = b"
  by (simp_all add: nth_append)

text \<open>
  When every positive is scored above every negative, and there is a positive, the
  area under the curve is 1.
\<close>

lemma aupr_separated:
  assumes len: "length L = length s" and pos: "\<exists>b \<in> set L. b"
    and sep: "\<forall>a \<in> set (zip L s). \<forall>b \<in> set (zip L s). fst a \<and> \<not> fst b \<longrightarrow> snd b < snd a"
  shows "\<exists>p r t. precision_recall_curve L s = Inr (p, r, t) \<and> auc r p = Inr (Num 1)"
proof -
  from pos have ne: "L \<noteq> []" by auto
  define desc where "desc = rev (sort_key snd (zip L s))"
  define yt where "yt = map fst desc"
  define ys where "ys = map snd desc"
  define idxs where
    "idxs = filter (\<lambda>i. ys ! i \<noteq> ys ! (i + 1)) [0..<length ys - 1] @ [length yt - 1]"
  define tp :: "nat \<Rightarrow> real" where
    "tp = (\<lambda>i. sum_list (map (\<lambda>b. if b then 1 else 0) (take (i + 1) yt)))"
  define n where "n = length desc"
  define P where "P = length (filter fst desc)"
  note form = precision_recall_curve_form [OF len ne desc_def yt_def ys_def idxs_def tp_def]
  note d = desc_facts [OF desc_def]
  have lyt: "length yt = n" and lys: "length ys = n" by (simp_all add: yt_def ys_def n_def)
  have sep': "\<forall>a \<in> set desc. \<forall>b \<in> set desc. fst a \<and> \<not> fst b \<longrightarrow> snd b < snd a"
    unfolding d(2) by (rule sep)
  have yt: "yt = replicate P True @ replicate (n - P) False"
    unfolding yt_def P_def n_def using d(3) sep' by (rule separated_labels)
  have "map fst (zip L s) = L" using len by simp
  then have "set L = fst ` set desc" unfolding d(2) by (metis set_map)
  with pos obtain e where "e \<in> set desc" "fst e" by auto
  then have "filter fst desc \<noteq> []" by (auto simp: filter_empty_conv)
  then have P0: "0 < P" by (simp add: P_def)
  have Pn: "P \<le> n" unfolding P_def n_def by (rule length_filter_le)
  have tp: "tp i = real (min (i + 1) P)" for i
    unfolding tp_def yt by (rule tp_replicate)
  have "min (n - 1 + 1) P = P" using P0 Pn by simp
  then have tpn: "tp (length yt - 1) = real P" unfolding lyt tp by (simp only:)
  have rP: "real P \<noteq> 0" using P0 by simp
  have curve: "precision_recall_curve L s =
      Inr (rev (map (\<lambda>i. real (min (i + 1) P) / (1 + real i)) idxs) @ [1],
           rev (map (\<lambda>i. real (min (i + 1) P) / real P) idxs) @ [0],
           rev (map (\<lambda>i. ys ! i) idxs))"
    unfolding form tpn using rP by (simp only: tp if_False)
  have idxs: "idxs = filter (\<lambda>i. ys ! i \<noteq> ys ! (i + 1)) [0..<n - 1] @ [n - 1]"
    unfolding idxs_def lys lyt ..
  note t = threshold_idxs_facts [OF idxs]
  have mem: "P - 1 \<in> set idxs"
  proof (cases "P = n")
    case True
    then show ?thesis unfolding idxs by simp
  next
    case False
    with Pn P0 have lt: "P - 1 < n - 1" "P - 1 < n" "P < n" "P - 1 + 1 = P" by simp_all
    have a: "desc ! (P - 1) \<in> set desc" "desc ! P \<in> set desc"
      using lt by (simp_all add: n_def)
    have "yt ! (P - 1) = True" unfolding yt using P0 by (intro nth_replicate_append(1)) simp
    then have fa: "fst (desc ! (P - 1))" using lt by (simp add: yt_def n_def)
    have "yt ! P = False" unfolding yt using lt by (intro nth_replicate_append(2)) simp_all
    then have fb: "\<not> fst (desc ! P)" using lt by (simp add: yt_def n_def)
    from sep' a fa fb have "snd (desc ! P) < snd (desc ! (P - 1))" by blast
    then have "ys ! (P - 1) \<noteq> ys ! (P - 1 + 1)"
      unfolding lt(4) using lt by (simp add: ys_def n_def)
    then show ?thesis unfolding idxs using lt(1) by simp
  qed
  have "auc (rev (map (\<lambda>i. real (min (i + 1) P) / real P) idxs) @ [0])
            (rev (map (\<lambda>i. real (min (i + 1) P) / (1 + real i)) idxs) @ [1]) = Inr (Num 1)"
    using P0 Pn t(1) t(2) t(3) mem by (rule curve_separated)
  with curve show ?thesis by blast
qed

section \<open>The statistics together\<close>


lemma two_values_length:
  assumes "a \<in> set y" "b \<in> set y" "a \<noteq> b"
  shows "2 \<le> length y"
proof (cases y)
  case Nil
  with assms show ?thesis by simp
next
  case (Cons u us)
  with assms show ?thesis by (cases us) auto
qed


lemma concordance_index_returns:
  assumes len: "length y_true = length y_pred"
    and ab: "a \<in> set y_true" "b \<in> set y_true" "a \<noteq> b"
  shows "concordance_index y_true y_pred = Inr (Num (concordant_fraction y_true y_pred))"
proof -
  let ?xs = "zip y_true y_pred"
  from ab(1) len obtain p where p: "(a, p) \<in> set ?xs" by (metis in_set_impl_in_set_zip1)
  from ab(2) len obtain q where q: "(b, q) \<in> set ?xs" by (metis in_set_impl_in_set_zip1)
  have pos: "0 < count_pairs ordered_pair ?xs ?xs"
  proof (cases "a < b")
    case True
    then have "ordered_pair (a, p) (b, q)" by (simp add: ordered_pair_def)
    with p q show ?thesis by (rule count_pairs_pos [where R = ordered_pair])
  next
    case False
    with ab(3) have "ordered_pair (b, q) (a, p)" by (simp add: ordered_pair_def)
    with q p show ?thesis by (rule count_pairs_pos [where R = ordered_pair])
  qed
  then obtain v where v: "concordance_index y_true y_pred = Inr v"
    using len by (simp add: concordance_index_def concordance_loop_sorted)
  from concordance_index_fraction [OF v] v show ?thesis by simp
qed

lemma pearsonr_returns:
  "length x = length y \<Longrightarrow> 2 \<le> length x \<Longrightarrow> \<exists>v. pearsonr x y = Inr v"
  by (simp add: pearsonr_def Let_def)

lemma r2_score_returns:
  "length x = length y \<Longrightarrow> x \<noteq> [] \<Longrightarrow> \<exists>v. r2_score x y = Inr v"
  by (simp add: r2_score_def Let_def)

lemma mean_squared_error_returns:
  "length x = length y \<Longrightarrow> x \<noteq> [] \<Longrightarrow> \<exists>v. mean_squared_error x y = Inr v"
  by (simp add: mean_squared_error_def)


lemma compute_metricsI:
  assumes "mean_squared_error yt yp = Inr a" "r2_score yt yp = Inr b"
    "concordance_index yt yp = Inr c" "pearsonr yt yp = Inr d"
    "precision_recall_curve (map (\<lambda>t. threshold < t) yt) yp = Inr (p, r, t)"
    "auc r p = Inr e"
  shows "compute_metrics yt yp = Inr \<lparr>mse = a, r2 = b, ci = c, pearson_corr = d, aupr = e\<rparr>"
  using assms by (simp add: compute_metrics_def)

lemma compute_metrics_ci:
  "compute_metrics yt yp = Inr m \<Longrightarrow> concordance_index yt yp = Inr (ci m)"
  by (auto simp: compute_metrics_def split: sum.splits prod.splits)


lemma aupr_all_positive:
  assumes "length yt = length yp" "yt \<noteq> []" "\<forall>v \<in> set yt. threshold < v"
  shows "\<exists>p r t. precision_recall_curve (map (\<lambda>t. threshold < t) yt) yp = Inr (p, r, t)
           \<and> auc r p = Inr (Num 1)"
proof (rule aupr_separated)
  let ?L = "map (\<lambda>t. threshold < t) yt"
  show "length ?L = length yp" using assms(1) by simp
  show "\<exists>b \<in> set ?L. b" using assms(2,3) by (cases yt) auto
  have "fst b" if "b \<in> set (zip ?L yp)" for b
  proof -
    from that have "fst b \<in> set ?L" by (metis prod.collapse set_zip_leftD)
    with assms(3) show ?thesis by auto
  qed
  then show "\<forall>a \<in> set (zip ?L yp). \<forall>b \<in> set (zip ?L yp). fst a \<and> \<not> fst b \<longrightarrow> snd b < snd a"
    by blast
qed

lemma aupr_none_positive:
  assumes "length yt = length yp" "yt \<noteq> []" "\<forall>v \<in> set yt. \<not> threshold < v"
  shows "\<exists>p r t. precision_recall_curve (map (\<lambda>t. threshold < t) yt) yp = Inr (p, r, t)
           \<and> auc r p = Inr (Num (1 / 2))"
  using assms by (intro aupr_no_positive) auto


text \<open>True affinities of one class only that are not all equal: the evaluator returns.\<close>

lemma compute_metrics_single_class:
  assumes len: "length yt = length yp" and ab: "a \<in> set yt" "b \<in> set yt" "a \<noteq> b"
    and au: "(\<forall>v \<in> set yt. \<not> threshold < v) \<and> au = Num (1 / 2)
           \<or> (\<forall>v \<in> set yt. threshold < v) \<and> au = Num 1"
  shows "\<exists>m. compute_metrics yt yp = Inr m \<and> aupr m = au
           \<and> ci m = Num (concordant_fraction yt yp)"
proof -
  have l: "2 \<le> length yt" using ab by (rule two_values_length)
  then have ne: "yt \<noteq> []" by auto
  from mean_squared_error_returns [OF len ne] obtain m1 where
    m1: "mean_squared_error yt yp = Inr m1" ..
  from r2_score_returns [OF len ne] obtain m2 where m2: "r2_score yt yp = Inr m2" ..
  note m3 = concordance_index_returns [OF len ab]
  from pearsonr_returns [OF len l] obtain m4 where m4: "pearsonr yt yp = Inr m4" ..
  have "\<exists>p r t. precision_recall_curve (map (\<lambda>t. threshold < t) yt) yp = Inr (p, r, t)
           \<and> auc r p = Inr au"
    using au aupr_none_positive [OF len ne] aupr_all_positive [OF len ne] by blast
  then obtain p r t where "precision_recall_curve (map (\<lambda>t. threshold < t) yt) yp = Inr (p, r, t)"
    "auc r p = Inr au" by blast
  with m1 m2 m3 m4 have "compute_metrics yt yp =
      Inr \<lparr>mse = m1, r2 = m2, ci = Num (concordant_fraction yt yp), pearson_corr = m4, aupr = au\<rparr>"
    by (rule compute_metricsI)
  then show ?thesis by simp
qed


section \<open>The evaluator on perfect and on degenerate data\<close>

lemma evaluate_collected:
  "collect (eval_mode model) test_loader [] [] = Inr (yt, yp) \<Longrightarrow>
    evaluate_model_with_metrics model test_loader = compute_metrics yt yp"
  by (simp add: evaluate_model_with_metrics_def)

text \<open>
  Claim C6. Whenever the evaluator returns, the concordance index it returns is, over
  the pairs of samples whose true affinities differ, the share of pairs whose
  predictions are in the order of the true affinities, a pair with tied predictions
  counting one half; the true affinities are those of the batches of the loader, in
  order.
\<close>

theorem evaluator_concordance_index:
  assumes "evaluate_model_with_metrics model test_loader = Inr m"
  shows "\<exists>y_pred. collect (eval_mode model) test_loader [] []
            = Inr (concat (map snd test_loader), y_pred)
          \<and> ci m = Num (concordant_fraction (concat (map snd test_loader)) y_pred)"
proof -
  from assms obtain yt yp where
    c: "collect (eval_mode model) test_loader [] [] = Inr (yt, yp)"
    by (cases "collect (eval_mode model) test_loader [] []")
      (auto simp: evaluate_model_with_metrics_def)
  from collect_true [OF c] have yt: "yt = concat (map snd test_loader)" by simp
  from assms have "compute_metrics yt yp = Inr m" by (simp only: evaluate_collected [OF c])
  then have "concordance_index yt yp = Inr (ci m)" by (rule compute_metrics_ci)
  then have "ci m = Num (concordant_fraction yt yp)" by (rule concordance_index_fraction)
  with c show ?thesis unfolding yt by blast
qed

theorem evaluator_concordance_index_witness:
  "\<exists>m. evaluate_model_with_metrics first_feature_model [([[2], [1], [3]], [1, 2, 3])] = Inr m
     \<and> ci m = Num (2 / 3)"
proof -
  let ?loader = "[([[2], [1], [3]], [1, 2, 3 :: real])]"
  have c: "collect (eval_mode first_feature_model) ?loader [] [] = Inr ([1, 2, 3], [2, 1, 3])"
    using collect_batch [of "[2, 1, 3]" "[1, 2, 3]"] by simp
  have "\<exists>m. compute_metrics [1, 2, 3] [2, 1, 3] = Inr m \<and> aupr m = Num (1 / 2)
      \<and> ci m = Num (concordant_fraction [1, 2, 3] [2, 1, 3])"
    by (rule compute_metrics_single_class [where a = 1 and b = 2]) (simp_all add: threshold_def)
  then obtain m where m: "evaluate_model_with_metrics first_feature_model ?loader = Inr m"
    unfolding evaluate_collected [OF c] by blast
  from evaluator_concordance_index [OF m] c
  have "ci m = Num (concordant_fraction [1, 2, 3] [2, 1, 3])" by simp
  moreover have "concordant_fraction [1, 2, 3] [2, 1, 3] = 2 / 3"
    by (simp add: concordant_fraction_def pair_credit_def)
  ultimately show ?thesis using m by auto
qed







end
